theory Spec2Isabelle
  imports Main
begin

section \<open>JavaScript strings\<close>

text \<open>
  A model of \<^verbatim>\<open>src/downloader.ts\<close> (the class \<^verbatim>\<open>Downloader\<close>) and of the method
  \<^verbatim>\<open>load\<close> of \<^verbatim>\<open>src/adapter.ts\<close>.  The libraries (cheerio, shiki, node-fetch, pako,
  tar-stream, \<^verbatim>\<open>JSON\<close>, \<^verbatim>\<open>fs\<close>) are functions that the model takes as arguments;
  the highlighter is the one \<^verbatim>\<open>_initHighlighter\<close> has built.  A method that can
  throw returns an error or a value, together with the state it leaves behind.

  Strings of the program are modelled as \<^typ>\<open>string\<close>: a character of the model
  is a code unit below 256 of the string of the program.  The helpers below are
  the \<^verbatim>\<open>String.prototype\<close> methods that the source calls.
\<close>

text \<open>\<^verbatim>\<open>s.endsWith(suf)\<close>\<close>

definition endsWith :: "string \<Rightarrow> string \<Rightarrow> bool" where
  "endsWith s suf \<longleftrightarrow> length suf \<le> length s \<and> drop (length s - length suf) s = suf"

text \<open>\<^verbatim>\<open>s.startsWith(pre)\<close>\<close>

definition startsWith :: "string \<Rightarrow> string \<Rightarrow> bool" where
  "startsWith s pre \<longleftrightarrow> take (length pre) s = pre"

text \<open>\<^verbatim>\<open>s.includes(sub)\<close>\<close>

fun includes_str :: "string \<Rightarrow> string \<Rightarrow> bool" where
  "includes_str [] sub = (sub = [])"
| "includes_str (c # cs) sub = (startsWith (c # cs) sub \<or> includes_str cs sub)"

text \<open>\<^verbatim>\<open>s.toLowerCase()\<close>: the capital letters below 256 are \<^verbatim>\<open>A\<close> to \<^verbatim>\<open>Z\<close> and
  the code units 192 to 222 without 215 (the multiplication sign).\<close>

definition lower_char :: "char \<Rightarrow> char" where
  "lower_char c =
     (let n = (of_char c :: nat)
      in if (65 \<le> n \<and> n \<le> 90) \<or> (192 \<le> n \<and> n \<le> 222 \<and> n \<noteq> 215) then char_of (n + 32) else c)"

definition toLowerCase :: "string \<Rightarrow> string" where
  "toLowerCase s = map lower_char s"

text \<open>\<^verbatim>\<open>s.split(sep)\<close> for a one-character separator: never the empty list.\<close>

fun split_on :: "char \<Rightarrow> string \<Rightarrow> string list" where
  "split_on sep [] = [[]]"
| "split_on sep (c # cs) =
     (if c = sep then [] # split_on sep cs
      else (case split_on sep cs of
              [] \<Rightarrow> [[c]]
            | p # ps \<Rightarrow> (c # p) # ps))"

text \<open>\<^verbatim>\<open>s.split(sep, limit)\<close>\<close>

definition js_split :: "char \<Rightarrow> nat \<Rightarrow> string \<Rightarrow> string list" where
  "js_split sep limit s = take limit (split_on sep s)"

text \<open>\<^verbatim>\<open>s.replace(/\.html$/, '')\<close>: the regular expression has no \<^verbatim>\<open>m\<close> flag, so
  \<^verbatim>\<open>$\<close> is the end of the whole string.\<close>

definition strip_html :: "string \<Rightarrow> string" where
  "strip_html s = (if endsWith s ''.html'' then take (length s - 5) s else s)"

text \<open>\<^verbatim>\<open>n.toString()\<close> of a non-negative integer.\<close>

definition digit_char :: "nat \<Rightarrow> char" where
  "digit_char d = char_of (48 + d)"

function toString_nat :: "nat \<Rightarrow> string" where
  "toString_nat n =
     (if n < 10 then [digit_char n] else toString_nat (n div 10) @ [digit_char (n mod 10)])"
  by pat_completeness auto

termination
  by (relation "measure id") auto

declare toString_nat.simps [simp del]

section \<open>Paths\<close>

text \<open>
  \<^verbatim>\<open>path.normalize(p)\<close>, \<^verbatim>\<open>path.join(a, b)\<close> and \<^verbatim>\<open>path.dirname(p)\<close> of Node, in
  their POSIX form.  \<^verbatim>\<open>normalizeString\<close> goes through the segments between the
  separators: an empty segment and \<^verbatim>\<open>.\<close> are dropped, \<^verbatim>\<open>..\<close> takes back the
  segment before it, or stays when there is none to take back and the path is
  relative.  \<open>res\<close> holds the segments kept so far, the last one first.
\<close>

fun normalizeString :: "bool \<Rightarrow> string list \<Rightarrow> string list \<Rightarrow> string list" where
  "normalizeString allowAboveRoot res [] = rev res"
| "normalizeString allowAboveRoot res (s # ss) =
     (if s = [] \<or> s = ''.'' then normalizeString allowAboveRoot res ss
      else if s = ''..'' then
        (case res of
           r # rs \<Rightarrow>
             if r \<noteq> ''..'' then normalizeString allowAboveRoot rs ss
             else normalizeString allowAboveRoot (if allowAboveRoot then ''..'' # res else res) ss
         | [] \<Rightarrow> normalizeString allowAboveRoot (if allowAboveRoot then [''..''] else []) ss)
      else normalizeString allowAboveRoot (s # res) ss)"

text \<open>\<^verbatim>\<open>segments.join(sep)\<close>\<close>

fun join_with :: "char \<Rightarrow> string list \<Rightarrow> string" where
  "join_with sep [] = []"
| "join_with sep [s] = s"
| "join_with sep (s # t # ss) = s @ sep # join_with sep (t # ss)"

definition path_normalize :: "string \<Rightarrow> string" where
  "path_normalize p =
     (if p = [] then ''.''
      else
        (let isAbsolute = (hd p = CHR ''/'');
             trailingSeparator = (last p = CHR ''/'');
             q = join_with (CHR ''/'')
                   (normalizeString (\<not> isAbsolute) [] (split_on (CHR ''/'') p))
         in if q = [] then (if isAbsolute then ''/'' else if trailingSeparator then ''./'' else ''.'')
            else (if isAbsolute then ''/'' else []) @ q @ (if trailingSeparator then ''/'' else [])))"

text \<open>\<^verbatim>\<open>path.join(...args)\<close>: the arguments that are not empty, joined by the
  separator and normalised; \<^verbatim>\<open>.\<close> when there is none.  The source calls it with
  two and with three arguments.\<close>

definition path_join_list :: "string list \<Rightarrow> string" where
  "path_join_list args =
     (case filter (\<lambda>arg. arg \<noteq> []) args of
        [] \<Rightarrow> ''.''
      | part # parts \<Rightarrow> path_normalize (join_with (CHR ''/'') (part # parts)))"

definition path_join :: "string \<Rightarrow> string \<Rightarrow> string" where
  "path_join a b = path_join_list [a, b]"

definition path_join3 :: "string \<Rightarrow> string \<Rightarrow> string \<Rightarrow> string" where
  "path_join3 a b c = path_join_list [a, b, c]"

text \<open>\<^verbatim>\<open>path.dirname(p)\<close>: the separators at the end are skipped, then the last
  segment, then the separator before it is looked for, from the end down to the
  second character.\<close>

definition path_dirname :: "string \<Rightarrow> string" where
  "path_dirname p =
     (if p = [] then ''.''
      else
        (let hasRoot = (hd p = CHR ''/'');
             r = dropWhile (\<lambda>c. c \<noteq> CHR ''/'') (dropWhile (\<lambda>c. c = CHR ''/'') (rev (tl p)))
         in if r = [] then (if hasRoot then ''/'' else ''.'')
            else if hasRoot \<and> tl r = [] then ''//''
            else hd p # rev (tl r)))"

text \<open>The directory itself and every directory above it, as \<^verbatim>\<open>mkdir\<close> with
  \<^verbatim>\<open>recursive: true\<close> creates them.\<close>

function ancestors :: "string \<Rightarrow> string list" where
  "ancestors d =
     (if CHR ''/'' \<in> set d \<and> length (path_dirname d) < length d
      then d # ancestors (path_dirname d) else [d])"
  by pat_completeness auto

termination
  by (relation "measure length") auto

declare ancestors.simps [simp del]

section \<open>The manifest entries and the search items\<close>

record IndexEntry =
  e_name :: string
  e_path :: string
  e_type :: string

record DocItem =
  slug :: string
  name :: string
  path :: string
  anchor :: "string option"
  label :: string
  detail :: string
  description :: string

record DocMeta =
  m_name :: string
  m_slug :: string
  m_type :: string

section \<open>The document tree\<close>

text \<open>
  A parsed document (the \<^verbatim>\<open>CheerioAPI\<close> handle of the source) is the list of the
  nodes below its root.  Attributes are an association list in insertion order, as
  the \<^verbatim>\<open>attribs\<close> object of an element is.
\<close>

type_synonym attrs = "(string \<times> string) list"

datatype node =
    Element string attrs "node list"
  | Text string
  | Comment string

type_synonym document = "node list"

fun is_element :: "node \<Rightarrow> bool" where
  "is_element (Element t a cs) = True"
| "is_element _ = False"

fun tagName :: "node \<Rightarrow> string" where
  "tagName (Element t a cs) = t"
| "tagName _ = []"

fun attribs :: "node \<Rightarrow> attrs" where
  "attribs (Element t a cs) = a"
| "attribs _ = []"

fun childNodes :: "node \<Rightarrow> node list" where
  "childNodes (Element t a cs) = cs"
| "childNodes _ = []"

text \<open>\<^verbatim>\<open>el.attr(name)\<close>\<close>

definition get_attr :: "string \<Rightarrow> attrs \<Rightarrow> string option" where
  "get_attr k a = map_of a k"

text \<open>\<^verbatim>\<open>el.attr(name, value)\<close>: an attribute that exists keeps its place, a new one
  goes last.\<close>

fun set_attr :: "string \<Rightarrow> string \<Rightarrow> attrs \<Rightarrow> attrs" where
  "set_attr k v [] = [(k, v)]"
| "set_attr k v ((k', v') # a) = (if k' = k then (k, v) # a else (k', v') # set_attr k v a)"

text \<open>\<^verbatim>\<open>el.text()\<close>: the text nodes below the nodes, in document order; a comment
  contributes nothing.\<close>

fun text_of :: "node \<Rightarrow> string" where
  "text_of (Element t a cs) = concat (map text_of cs)"
| "text_of (Text s) = s"
| "text_of (Comment s) = []"

definition text_content :: "node list \<Rightarrow> string" where
  "text_content ns = concat (map text_of ns)"

text \<open>All elements of a forest in document order (the order of a selection).\<close>

fun elements_of :: "node \<Rightarrow> node list" where
  "elements_of (Element t a cs) = Element t a cs # concat (map elements_of cs)"
| "elements_of _ = []"

definition all_elements :: "document \<Rightarrow> node list" where
  "all_elements d = concat (map elements_of d)"

subsection \<open>The steps of the transformer\<close>

text \<open>\<^verbatim>\<open>document(tag).append(fragment)\<close>: every element of that name gets the nodes
  of the fragment after its last child.\<close>

fun append_to :: "string \<Rightarrow> node list \<Rightarrow> node \<Rightarrow> node" where
  "append_to tg frag (Element t a cs) =
     Element t a (map (append_to tg frag) cs @ (if t = tg then frag else []))"
| "append_to tg frag n = n"

text \<open>\<^verbatim>\<open>document(selector).remove()\<close> for a selector that looks at one element
  only: the matching elements go, with everything below them.\<close>

fun remove_where :: "(string \<Rightarrow> attrs \<Rightarrow> bool) \<Rightarrow> node \<Rightarrow> node list" where
  "remove_where P (Element t a cs) =
     (if P t a then [] else [Element t a (concat (map (remove_where P) cs))])"
| "remove_where P n = [n]"

text \<open>\<^verbatim>\<open>document('a').each(function () { this.tagName = 'vscode-link'; })\<close>\<close>

fun rename_tag :: "string \<Rightarrow> string \<Rightarrow> node \<Rightarrow> node" where
  "rename_tag old new (Element t a cs) =
     Element (if t = old then new else t) a (map (rename_tag old new) cs)"
| "rename_tag old new n = n"

subsection \<open>Table restructuring\<close>

text \<open>The inner callback: every element child of a row becomes a grid cell;
  \<^verbatim>\<open>el.index()\<close> counts the element siblings before it.\<close>

fun make_cells :: "bool \<Rightarrow> nat \<Rightarrow> node list \<Rightarrow> node list" where
  "make_cells isHeader i [] = []"
| "make_cells isHeader i (Element t a cs # ns) =
     Element ''vscode-data-grid-cell''
       (set_attr ''cell-type'' (if isHeader then ''columnheader'' else ''default'')
         (set_attr ''grid-column'' (toString_nat (i + 1)) a)) cs
     # make_cells isHeader (Suc i) ns"
| "make_cells isHeader i (n # ns) = n # make_cells isHeader i ns"

text \<open>The middle callback: an element child of the \<^verbatim>\<open>thead\<close> or \<^verbatim>\<open>tbody\<close>
  becomes a grid row.\<close>

fun make_row :: "bool \<Rightarrow> node \<Rightarrow> node" where
  "make_row isHeader (Element t a cs) =
     Element ''vscode-data-grid-row''
       (if isHeader then set_attr ''row-type'' ''header'' a else a)
       (make_cells isHeader 0 cs)"
| "make_row isHeader n = n"

text \<open>\<^verbatim>\<open>el.children().each(...)\<close>: the element children only.\<close>

definition make_rows :: "bool \<Rightarrow> node list \<Rightarrow> node list" where
  "make_rows isHeader cs = map (make_row isHeader) (filter is_element cs)"

text \<open>
  The outer loop, \<^verbatim>\<open>document('thead, tbody').each(...)\<close>.  The elements are
  selected once, before the first callback runs, and visited in document order.
  \<^verbatim>\<open>insertAfter\<close> of cheerio takes the rows out of the document and puts copies of
  them after the target, which \<^verbatim>\<open>el.remove()\<close> then removes: the copies take the
  place of the \<^verbatim>\<open>thead\<close> or \<^verbatim>\<open>tbody\<close> among its siblings.  The copies are not
  part of the selection.  A selected element below a row is still visited, on the
  original that was taken out; this changes nothing in the document.  So what the
  document shows is: every \<^verbatim>\<open>thead\<close> and \<^verbatim>\<open>tbody\<close> that is not inside another one
  is replaced by its rows, and the rows are left as the callbacks made them.
\<close>

fun restructure :: "node \<Rightarrow> node list" where
  "restructure (Element t a cs) =
     (if t = ''thead'' \<or> t = ''tbody'' then make_rows (t = ''thead'') cs
      else [Element t a (concat (map restructure cs))])"
| "restructure n = [n]"

definition restructure_tables :: "document \<Rightarrow> document" where
  "restructure_tables d = concat (map restructure d)"

subsection \<open>Snippet selection\<close>

text \<open>
  The query \<^verbatim>\<open>:is(E) ~ :is(div, p):not(._attribution)\<close>: the elements that the
  right part matches and that come, among the children of one parent, after an
  element that \<^verbatim>\<open>E\<close> matches; in document order.
\<close>

text \<open>The class selector of css-select tests the attribute with \<^verbatim>\<open>\s\<close> around the
  name.  Below 256, \<^verbatim>\<open>\s\<close> of JavaScript holds of the code units 9 to 13, of the
  space and of the no-break space (160).\<close>

definition is_space :: "char \<Rightarrow> bool" where
  "is_space c \<longleftrightarrow>
     c = CHR '' '' \<or> c = CHR 0x09 \<or> c = CHR 0x0A \<or> c = CHR 0x0B \<or> c = CHR 0x0C \<or> c = CHR 0x0D
     \<or> c = CHR 0xA0"

fun class_words :: "string \<Rightarrow> string \<Rightarrow> string list" where
  "class_words w [] = (if w = [] then [] else [w])"
| "class_words w (c # cs) =
     (if is_space c then (if w = [] then [] else [w]) @ class_words [] cs
      else class_words (w @ [c]) cs)"

definition has_class :: "string \<Rightarrow> attrs \<Rightarrow> bool" where
  "has_class cl a = (case get_attr ''class'' a of
                      None \<Rightarrow> False
                    | Some v \<Rightarrow> cl \<in> set (class_words [] v))"

text \<open>\<^verbatim>\<open>(!anchor) ? 'h1, h2, h3' : `#${cssEscape(anchor)}`\<close>: the empty anchor is
  falsy too.\<close>

definition selector :: "string option \<Rightarrow> string \<Rightarrow> attrs \<Rightarrow> bool" where
  "selector anch t a =
     (if anch = None \<or> anch = Some [] then t = ''h1'' \<or> t = ''h2'' \<or> t = ''h3''
      else get_attr ''id'' a = anch)"

definition snippet_target :: "string \<Rightarrow> attrs \<Rightarrow> bool" where
  "snippet_target t a \<longleftrightarrow> (t = ''div'' \<or> t = ''p'') \<and> \<not> has_class ''_attribution'' a"

fun select_siblings ::
  "(string \<Rightarrow> attrs \<Rightarrow> bool) \<Rightarrow> (string \<Rightarrow> attrs \<Rightarrow> bool) \<Rightarrow> bool \<Rightarrow> node list \<Rightarrow> node list"
where
  "select_siblings E F seen [] = []"
| "select_siblings E F seen (Element t a cs # ns) =
     (if seen \<and> F t a then [Element t a cs] else [])
     @ select_siblings E F False cs
     @ select_siblings E F (seen \<or> E t a) ns"
| "select_siblings E F seen (n # ns) = select_siblings E F seen ns"

definition snippet :: "string option \<Rightarrow> document \<Rightarrow> string" where
  "snippet anch d = text_content (select_siblings (selector anch) snippet_target False d)"

section \<open>The collaborators of the downloader\<close>

text \<open>
  Exceptions of the source are values.  \<^verbatim>\<open>HighlightError\<close> is whatever
  \<^verbatim>\<open>codeToHtml\<close> throws, \<^verbatim>\<open>ReadError\<close> a rejected \<^verbatim>\<open>fs.promises.readFile\<close>,
  \<^verbatim>\<open>ManifestError\<close> what \<^verbatim>\<open>JSON.parse\<close> or the access to a manifest's fields
  throws.
\<close>

datatype error = HighlightError | ReadError string | ManifestError

datatype event =
    FetchFailed
  | NoManifests
  | WriteFailed string
  | Extracted string
  | Processed string nat nat

text \<open>One record of the tar stream: only a record of type \<^verbatim>\<open>file\<close> is kept.\<close>

record tar_entry =
  is_file :: bool
  header_name :: string
  content :: string

text \<open>
  The libraries and the outside world, as functions.  \<^verbatim>\<open>codeToHtml\<close> is the
  highlighter of the active theme, \<^verbatim>\<open>None\<close> when it throws; \<^verbatim>\<open>fetch\<close> gives the
  records of the archive of a slug, \<^verbatim>\<open>None\<close> when the response is not ok;
  \<^verbatim>\<open>mkdirOk\<close> and \<^verbatim>\<open>writeOk\<close> say where the disk accepts a directory or a file.
\<close>

record env =
  parseHtml :: "string \<Rightarrow> document"
  parseFragment :: "string \<Rightarrow> node list"
  serializeHtml :: "document \<Rightarrow> string"
  codeToHtml :: "string \<Rightarrow> string option \<Rightarrow> string option"
  fetch :: "string \<Rightarrow> tar_entry list option"
  parseMeta :: "string \<Rightarrow> DocMeta option"
  parseIndex :: "string \<Rightarrow> IndexEntry list option"
  stringifyMeta :: "DocMeta \<Rightarrow> string"
  stringifyItems :: "DocItem list \<Rightarrow> string"
  parseItems :: "string \<Rightarrow> DocItem list option"
  mkdirOk :: "string \<Rightarrow> bool"
  writeOk :: "string \<Rightarrow> bool"

section \<open>The least-recently-used map\<close>

text \<open>
  Modelled from the spec: the class \<^verbatim>\<open>LRUMap\<close> of the package \<^verbatim>\<open>lru_map\<close> is not
  under \<^verbatim>\<open>src/\<close>.  The spec: a fixed-capacity least-recently-used cache keyed by
  file path; eviction drops the least-recently-accessed entry when the capacity is
  exceeded.  The entries are listed from the oldest to the newest; \<^verbatim>\<open>has\<close> does
  not count as an access, \<^verbatim>\<open>get\<close> and \<^verbatim>\<open>set\<close> do.
\<close>

type_synonym ('k, 'v) lru = "('k \<times> 'v) list"

definition lru_has :: "'k \<Rightarrow> ('k, 'v) lru \<Rightarrow> bool" where
  "lru_has k l \<longleftrightarrow> k \<in> fst ` set l"

definition lru_touch :: "'k \<Rightarrow> 'v \<Rightarrow> ('k, 'v) lru \<Rightarrow> ('k, 'v) lru" where
  "lru_touch k v l = filter (\<lambda>e. fst e \<noteq> k) l @ [(k, v)]"

definition lru_get :: "'k \<Rightarrow> ('k, 'v) lru \<Rightarrow> 'v option \<times> ('k, 'v) lru" where
  "lru_get k l = (case map_of l k of
                    None \<Rightarrow> (None, l)
                  | Some v \<Rightarrow> (Some v, lru_touch k v l))"

definition lru_set :: "nat \<Rightarrow> 'k \<Rightarrow> 'v \<Rightarrow> ('k, 'v) lru \<Rightarrow> ('k, 'v) lru" where
  "lru_set limit k v l =
     (if lru_has k l then lru_touch k v l
      else let l' = l @ [(k, v)] in if limit < length l' then tl l' else l')"

section \<open>The downloader\<close>

text \<open>
  The fields of the class \<^verbatim>\<open>Downloader\<close>, and with them what its methods act on
  outside the object: the files and directories of the disk and the console.
\<close>

record downloader =
  storePath :: string
  d_slug :: string
  docsetPath :: string
  docsetName :: string
  documents :: "string \<rightharpoonup> string"
  processedDocuments :: "string set"
  parsedDocuments :: "(string, document) lru"
  files :: "string \<rightharpoonup> string"
  dirs :: "string set"
  console :: "event list"

definition capacity :: nat where
  "capacity = 64"

text \<open>The two fragments that go into every \<^verbatim>\<open>head\<close>: the text of each template
  literal is passed to the parser of fragments.\<close>

definition extraStyle :: string where
  "extraStyle =
       ''\<newline>''
     @ ''        <style>\<newline>''
     @ ''            pre.shiki { \<newline>''
     @ ''                padding: 8px 6px;\<newline>''
     @ ''                overflow-y: auto;\<newline>''
     @ ''            }\<newline>''
     @ ''            ._attribution {\<newline>''
     @ ''                opacity: 50%;\<newline>''
     @ ''            }\<newline>''
     @ ''        </style>\<newline>''
     @ ''    ''"

definition scriptLink :: string where
  "scriptLink =
       ''\<newline>''
     @ ''        <script async type=\"module\"\<newline>''
     @ ''            nonce=\"%%DEVDOCS-VSCODE-ADAPTER-NONCE%%\"\<newline>''
     @ ''            src=\"%%DEVDOCS-VSCODE-ADAPTER-SCRIPT%%\">\<newline>''
     @ ''        </script>\<newline>''
     @ ''    ''"

text \<open>\<^verbatim>\<open>fs.existsSync(p)\<close>\<close>

definition existsSync :: "downloader \<Rightarrow> string \<Rightarrow> bool" where
  "existsSync st p \<longleftrightarrow> files st p \<noteq> None \<or> p \<in> dirs st"

text \<open>
  \<^verbatim>\<open>_writeFile\<close>: both promises have a \<^verbatim>\<open>catch\<close>, so the method has no failing
  branch.  A failed \<^verbatim>\<open>mkdir\<close> is dropped silently; a failed write is reported on the
  console.  The write needs the directory.
\<close>

definition writeFile :: "env \<Rightarrow> string \<Rightarrow> string \<Rightarrow> downloader \<Rightarrow> downloader" where
  "writeFile ev fileName text st =
     (let filePath = path_join (docsetPath st) fileName;
          dir = path_dirname filePath;
          st1 = (if mkdirOk ev dir then st\<lparr>dirs := dirs st \<union> set (ancestors dir)\<rparr> else st)
      in if writeOk ev filePath \<and> dir \<in> dirs st1
         then st1\<lparr>files := (files st1)(filePath \<mapsto> text)\<rparr>
         else st1\<lparr>console := console st1 @ [WriteFailed filePath]\<rparr>)"

subsection \<open>The document transformer\<close>

text \<open>
  \<^verbatim>\<open>document('pre').each(...)\<close> of \<^verbatim>\<open>src/downloader.ts\<close>: the call of the
  highlighter is not guarded, so what it throws leaves the loop and the method.
  A \<^verbatim>\<open>pre\<close> below a \<^verbatim>\<open>pre\<close> is still visited after \<^verbatim>\<open>el.html(...)\<close> has
  detached it: its new content is not seen, what it throws is.
\<close>

fun highlight :: "env \<Rightarrow> node \<Rightarrow> error + node"
  and highlight_all :: "env \<Rightarrow> node list \<Rightarrow> error + node list"
where
  "highlight ev (Element t a cs) =
     (if t = ''pre'' then
        (case codeToHtml ev (text_content cs) (get_attr ''data-language'' a) of
           None \<Rightarrow> Inl HighlightError
         | Some html \<Rightarrow>
             (case highlight_all ev cs of
                Inl e \<Rightarrow> Inl e
              | Inr _ \<Rightarrow> Inr (Element t a (parseFragment ev html))))
      else
        (case highlight_all ev cs of
           Inl e \<Rightarrow> Inl e
         | Inr cs' \<Rightarrow> Inr (Element t a cs')))"
| "highlight ev (Text s) = Inr (Text s)"
| "highlight ev (Comment s) = Inr (Comment s)"
| "highlight_all ev [] = Inr []"
| "highlight_all ev (n # ns) =
     (case highlight ev n of
        Inl e \<Rightarrow> Inl e
      | Inr n' \<Rightarrow>
          (case highlight_all ev ns of
             Inl e \<Rightarrow> Inl e
           | Inr ns' \<Rightarrow> Inr (n' # ns')))"

text \<open>
  The same loop in the second copy of the class (\<^verbatim>\<open>src/unnamed/part_001\<close>, lines
  294 to 302): the body is inside \<^verbatim>\<open>try { ... } catch { }\<close>, so a block whose
  highlighting throws keeps its children and the loop goes on.
\<close>

fun highlight_guarded :: "env \<Rightarrow> node \<Rightarrow> node" where
  "highlight_guarded ev (Element t a cs) =
     (if t = ''pre'' then
        (case codeToHtml ev (text_content cs) (get_attr ''data-language'' a) of
           None \<Rightarrow> Element t a (map (highlight_guarded ev) cs)
         | Some html \<Rightarrow> Element t a (parseFragment ev html))
      else Element t a (map (highlight_guarded ev) cs))"
| "highlight_guarded ev n = n"

definition try_it :: "string \<Rightarrow> attrs \<Rightarrow> bool" where
  "try_it t a \<longleftrightarrow> t = ''section'' \<and> get_attr ''aria-labelby'' a = Some ''try_it''"

text \<open>The steps before the code blocks, which cannot fail.\<close>

definition fix_elements :: "env \<Rightarrow> document \<Rightarrow> document" where
  "fix_elements ev d0 =
     (let d1 = map (append_to ''head'' (parseFragment ev extraStyle)) d0;
          d2 = map (append_to ''head'' (parseFragment ev scriptLink)) d1;
          d3 = concat (map (remove_where (\<lambda>t a. t = ''iframe'')) d2);
          d4 = map (rename_tag ''a'' ''vscode-link'') d3
      in restructure_tables d4)"

text \<open>The docset specific fixes.\<close>

definition docset_fixes :: "string \<Rightarrow> document \<Rightarrow> document" where
  "docset_fixes dsName d =
     (if dsName = ''javascript'' then concat (map (remove_where try_it) d) else d)"

text \<open>\<^verbatim>\<open>_processDocument\<close> of \<^verbatim>\<open>src/downloader.ts\<close>.  A \<^verbatim>\<open>Buffer\<close> is truthy even
  when it is empty, so "no document" is exactly a missing key.\<close>

definition processDocument ::
  "env \<Rightarrow> string \<Rightarrow> downloader \<Rightarrow> (error + document option) \<times> downloader" where
  "processDocument ev fileName st =
     (case documents st fileName of
        None \<Rightarrow> (Inr None, st)
      | Some documentHtml \<Rightarrow>
          (case highlight_all ev (fix_elements ev (parseHtml ev documentHtml)) of
             Inl e \<Rightarrow> (Inl e, st)
           | Inr d \<Rightarrow>
               (let d' = docset_fixes (docsetName st) d
                in (Inr (Some d'), writeFile ev fileName (serializeHtml ev d') st))))"

subsection \<open>The document cache\<close>

text \<open>\<^verbatim>\<open>_getDocument\<close>.  The read of the second tier takes \<^verbatim>\<open>fileName\<close> as it
  is, not below \<^verbatim>\<open>_docsetPath\<close>.\<close>

definition getDocument ::
  "env \<Rightarrow> string \<Rightarrow> downloader \<Rightarrow> (error + document option) \<times> downloader" where
  "getDocument ev fileName st =
     (if lru_has fileName (parsedDocuments st) then
        (let (d, l) = lru_get fileName (parsedDocuments st)
         in (Inr d, st\<lparr>parsedDocuments := l\<rparr>))
      else
        (case (if fileName \<in> processedDocuments st then
                 (case files st fileName of
                    None \<Rightarrow> (Inl (ReadError fileName), st)
                  | Some html \<Rightarrow> (Inr (Some (parseHtml ev html)), st))
               else processDocument ev fileName st) of
           (Inl e, st') \<Rightarrow> (Inl e, st')
         | (Inr None, st') \<Rightarrow> (Inr None, st')
         | (Inr (Some d), st') \<Rightarrow>
             (Inr (Some d),
              st'\<lparr>parsedDocuments := lru_set capacity fileName d (parsedDocuments st')\<rparr>)))"

subsection \<open>The entry indexer\<close>

definition categorize :: "string \<Rightarrow> string" where
  "categorize entryType =
     (let ty = toLowerCase entryType
      in if list_ex (\<lambda>s. includes_str ty s) [''collection'', ''container'', ''array'']
         then ''$(symbol-array)'' else ''$(symbol-misc)'')"

text \<open>\<^verbatim>\<open>const [ref, anchor] = entry.path.replace(/\.html$/, '').split('#', 2)\<close>:
  the suffix is removed from the whole path first, the fragment is split off after.\<close>

definition split_path :: "string \<Rightarrow> string \<times> string option" where
  "split_path p =
     (case js_split (CHR ''#'') 2 (strip_html p) of
        [] \<Rightarrow> (''undefined'', None)
      | [r] \<Rightarrow> (r, None)
      | r # a # _ \<Rightarrow> (r, Some a))"

text \<open>\<^verbatim>\<open>_processEntry\<close>\<close>

definition processEntry ::
  "env \<Rightarrow> IndexEntry \<Rightarrow> downloader \<Rightarrow> (error + DocItem) \<times> downloader" where
  "processEntry ev entry st =
     (let (ref, anch) = split_path (e_path entry);
          p = ref @ ''.html''
      in case getDocument ev p st of
           (Inl e, st') \<Rightarrow> (Inl e, st')
         | (Inr doc, st') \<Rightarrow>
             (Inr \<lparr> slug = d_slug st',
                    name = (case doc of
                              Some d \<Rightarrow> e_name entry
                            | None \<Rightarrow> ''~'' @ e_name entry @ ''~''),
                    path = p,
                    anchor = anch,
                    label = categorize (e_type entry) @ '' '' @ e_name entry,
                    detail = (case doc of
                                Some d \<Rightarrow> snippet anch d
                              | None \<Rightarrow> ''ERROR: Documentation missing for item.''),
                    description = docsetName st' @ '' - '' @ e_type entry \<rparr>,
              st'))"

text \<open>The loop of \<^verbatim>\<open>_download\<close> over the entries, from index \<^verbatim>\<open>i\<close> of \<^verbatim>\<open>n\<close>.\<close>

fun processEntries ::
  "env \<Rightarrow> IndexEntry list \<Rightarrow> nat \<Rightarrow> nat \<Rightarrow> downloader \<Rightarrow> (error + DocItem list) \<times> downloader"
where
  "processEntries ev [] i n st = (Inr [], st)"
| "processEntries ev (e # es) i n st =
     (case processEntry ev e st of
        (Inl err, st') \<Rightarrow> (Inl err, st')
      | (Inr item, st') \<Rightarrow>
          (case processEntries ev es (Suc i) n
                  (st'\<lparr>console := console st' @ [Processed (e_name e) i n]\<rparr>) of
             (Inl err, st'') \<Rightarrow> (Inl err, st'')
           | (Inr items, st'') \<Rightarrow> (Inr (item # items), st'')))"

subsection \<open>Fetching and extracting\<close>

definition extract_entry :: "env \<Rightarrow> tar_entry \<Rightarrow> downloader \<Rightarrow> downloader" where
  "extract_entry ev r st =
     (if \<not> is_file r then st
      else let fileName = path_normalize (header_name r)
           in st\<lparr>documents := (documents st)(fileName \<mapsto> content r),
                 console := console st @ [Extracted fileName]\<rparr>)"

text \<open>What \<^verbatim>\<open>_fetchExtract\<close> does once the response is there: a response that is
  not ok is reported and the method returns, and the caller goes on; else every
  record of the archive is extracted.\<close>

definition extract_response :: "env \<Rightarrow> tar_entry list option \<Rightarrow> downloader \<Rightarrow> downloader" where
  "extract_response ev response st =
     (case response of
        None \<Rightarrow> st\<lparr>console := console st @ [FetchFailed]\<rparr>
      | Some records \<Rightarrow> fold (extract_entry ev) records st)"

text \<open>\<^verbatim>\<open>_fetchExtract\<close>: the request is for the archive of \<^verbatim>\<open>this._slug\<close>.\<close>

definition fetchExtract :: "env \<Rightarrow> downloader \<Rightarrow> downloader" where
  "fetchExtract ev st = extract_response ev (fetch ev (d_slug st)) st"

subsection \<open>One download\<close>

text \<open>\<^verbatim>\<open>_download(slug, force)\<close>, run from its first line to its last with no other
  task in between.\<close>

definition download_slug ::
  "env \<Rightarrow> string \<Rightarrow> bool \<Rightarrow> downloader \<Rightarrow> (error + unit) \<times> downloader" where
  "download_slug ev sl force st0 =
     (let st1 = st0\<lparr>documents := Map.empty, processedDocuments := {}, parsedDocuments := [],
                    d_slug := sl, docsetPath := path_join (storePath st0) sl\<rparr>
      in if \<not> force \<and> existsSync st1 (docsetPath st1) then (Inr (), st1)
         else
           (let st2 = fetchExtract ev st1
            in case (documents st2 ''index.json'', documents st2 ''meta.json'') of
                 (Some indexFile, Some metaFile) \<Rightarrow>
                   (case parseMeta ev metaFile of
                      None \<Rightarrow> (Inl ManifestError, st2)
                    | Some meta \<Rightarrow>
                        (let st3 = writeFile ev ''meta.json'' (stringifyMeta ev meta) st2;
                             st4 = st3\<lparr>docsetName := m_name meta\<rparr>
                         in case parseIndex ev indexFile of
                              None \<Rightarrow> (Inl ManifestError, st4)
                            | Some entries \<Rightarrow>
                                (case processEntries ev entries 0 (length entries) st4 of
                                   (Inl e, st5) \<Rightarrow> (Inl e, st5)
                                 | (Inr items, st5) \<Rightarrow>
                                     (Inr (),
                                      writeFile ev ''items.json'' (stringifyItems ev items) st5))))
               | _ \<Rightarrow> (Inr (), st2\<lparr>console := console st2 @ [NoManifests]\<rparr>)))"

subsection \<open>Several downloads at once\<close>

text \<open>
  \<^verbatim>\<open>download(slugs, force)\<close> is \<^verbatim>\<open>Promise.all(slugs.map(doc => this._download(doc,
  force)))\<close> on one \<^verbatim>\<open>Downloader\<close>.  With the highlighter in place, each call of
  \<^verbatim>\<open>_download\<close> runs without a pause up to \<^verbatim>\<open>await fetch(...)\<close> inside
  \<^verbatim>\<open>_fetchExtract\<close>; so \<^verbatim>\<open>map\<close> runs the first part of every download, in the
  order of the list, before any response is handled.
\<close>

text \<open>\<^verbatim>\<open>_download\<close> up to its first pause: the fields are reset and set, and the
  download goes on (\<^verbatim>\<open>True\<close>) unless the docset is on the disk already.\<close>

definition download_start :: "string \<Rightarrow> bool \<Rightarrow> downloader \<Rightarrow> bool \<times> downloader" where
  "download_start sl force st0 =
     (let st1 = st0\<lparr>documents := Map.empty, processedDocuments := {}, parsedDocuments := [],
                    d_slug := sl, docsetPath := path_join (storePath st0) sl\<rparr>
      in (force \<or> \<not> existsSync st1 (docsetPath st1), st1))"

text \<open>\<^verbatim>\<open>_download\<close> from the arrival of the response to its end, with no other
  task in between.\<close>

definition download_finish ::
  "env \<Rightarrow> tar_entry list option \<Rightarrow> downloader \<Rightarrow> (error + unit) \<times> downloader" where
  "download_finish ev response st1 =
     (let st2 = extract_response ev response st1
      in case (documents st2 ''index.json'', documents st2 ''meta.json'') of
           (Some indexFile, Some metaFile) \<Rightarrow>
             (case parseMeta ev metaFile of
                None \<Rightarrow> (Inl ManifestError, st2)
              | Some meta \<Rightarrow>
                  (let st3 = writeFile ev ''meta.json'' (stringifyMeta ev meta) st2;
                       st4 = st3\<lparr>docsetName := m_name meta\<rparr>
                   in case parseIndex ev indexFile of
                        None \<Rightarrow> (Inl ManifestError, st4)
                      | Some entries \<Rightarrow>
                          (case processEntries ev entries 0 (length entries) st4 of
                             (Inl e, st5) \<Rightarrow> (Inl e, st5)
                           | (Inr items, st5) \<Rightarrow>
                               (Inr (),
                                writeFile ev ''items.json'' (stringifyItems ev items) st5))))
         | _ \<Rightarrow> (Inr (), st2\<lparr>console := console st2 @ [NoManifests]\<rparr>))"

text \<open>
  The downloads that go on, started in the order of the list; then their second
  parts, in the order in which the responses arrive.  These are executions of the
  program; in others the second parts are interleaved with each other as well.
  \<^verbatim>\<open>Promise.all\<close> rejects with the first failure while the other downloads run on.
\<close>

fun start_all :: "string list \<Rightarrow> bool \<Rightarrow> downloader \<Rightarrow> string list \<times> downloader" where
  "start_all [] force st = ([], st)"
| "start_all (sl # sls) force st =
     (let (go, st1) = download_start sl force st;
          (running, st2) = start_all sls force st1
      in (if go then sl # running else running, st2))"

fun finish_all :: "env \<Rightarrow> string list \<Rightarrow> downloader \<Rightarrow> error list \<times> downloader" where
  "finish_all ev [] st = ([], st)"
| "finish_all ev (sl # sls) st =
     (let (r, st1) = download_finish ev (fetch ev sl) st;
          (errs, st2) = finish_all ev sls st1
      in ((case r of Inl e \<Rightarrow> [e] | Inr u \<Rightarrow> []) @ errs, st2))"

definition download ::
  "env \<Rightarrow> (string list \<Rightarrow> string list) \<Rightarrow> string list \<Rightarrow> bool \<Rightarrow> downloader
     \<Rightarrow> (error + unit) \<times> downloader" where
  "download ev arrival slugs force st =
     (let (running, st1) = start_all slugs force st;
          (errs, st2) = finish_all ev (arrival running) st1
      in (case errs of [] \<Rightarrow> Inr () | e # es \<Rightarrow> Inl e, st2))"

section \<open>The adapter\<close>

text \<open>The fields of \<^verbatim>\<open>DevDocsAdapter\<close> that \<^verbatim>\<open>load\<close> touches, and the slugs for
  which \<^verbatim>\<open>showErrorMessage\<close> was called.\<close>

record adapter =
  a_items :: "DocItem list"
  manifests :: "string \<rightharpoonup> DocMeta"
  shown :: "string list"

text \<open>The loop of \<^verbatim>\<open>load\<close> over the slugs.  The manifest of the previous load is
  taken over before the files are looked at; the first slug with a missing file
  ends the whole loop.\<close>

fun load_loop ::
  "env \<Rightarrow> bool \<Rightarrow> (string \<rightharpoonup> DocMeta) \<Rightarrow> downloader \<Rightarrow> string list \<Rightarrow> adapter
     \<Rightarrow> (error + unit) \<times> adapter"
where
  "load_loop ev force prev st [] ad = (Inr (), ad)"
| "load_loop ev force prev st (sl # sls) ad =
     (let ad1 = (if \<not> force \<and> prev sl \<noteq> None
                 then ad\<lparr>manifests := (manifests ad)(sl := prev sl)\<rparr> else ad);
          metaPath = path_join3 (storePath st) sl ''meta.json'';
          itemsPath = path_join3 (storePath st) sl ''items.json''
      in if \<not> existsSync st metaPath \<or> \<not> existsSync st itemsPath
         then (Inr (), ad1\<lparr>shown := shown ad1 @ [sl]\<rparr>)
         else
           (case (files st metaPath, files st itemsPath) of
              (Some meta, Some items) \<Rightarrow>
                (case parseMeta ev meta of
                   None \<Rightarrow> (Inl ManifestError, ad1)
                 | Some m \<Rightarrow>
                     (let ad2 = ad1\<lparr>manifests := (manifests ad1)(sl \<mapsto> m)\<rparr>
                      in case parseItems ev items of
                           None \<Rightarrow> (Inl ManifestError, ad2)
                         | Some its \<Rightarrow>
                             load_loop ev force prev st sls (ad2\<lparr>a_items := a_items ad2 @ its\<rparr>)))
            | (None, _) \<Rightarrow> (Inl (ReadError metaPath), ad1)
            | (_, None) \<Rightarrow> (Inl (ReadError itemsPath), ad1)))"

text \<open>\<^verbatim>\<open>load(slugs, force)\<close>\<close>

definition load ::
  "env \<Rightarrow> (string list \<Rightarrow> string list) \<Rightarrow> string list \<Rightarrow> bool \<Rightarrow> adapter \<times> downloader
     \<Rightarrow> (error + unit) \<times> adapter \<times> downloader" where
  "load ev arrival slugs force s =
     (let (ad, st) = s;
          prevManifests = manifests ad;
          ad0 = ad\<lparr>a_items := [], manifests := Map.empty\<rparr>
      in case download ev arrival slugs force st of
           (Inl e, st') \<Rightarrow> (Inl e, ad0, st')
         | (Inr u, st') \<Rightarrow>
             (let (r, ad') = load_loop ev force prevManifests st' slugs ad0 in (r, ad', st')))"

section \<open>A small world for running the model\<close>

text \<open>
  Concrete collaborators: a parser that knows three pages, a serialiser that prints
  tags and text, a highlighter that rejects the language \<^verbatim>\<open>cobol\<close>, archives
  for three slugs, and a disk that accepts every write.
\<close>

definition page_array :: document where
  "page_array =
     [Element ''html'' []
        [Element ''head'' [] [],
         Element ''body'' []
           [Element ''h1'' [] [Text ''Array''],
            Element ''p'' [] [Text ''Lists.''],
            Element ''h2'' [(''id'', ''at'')] [Text ''at''],
            Element ''p'' [] [Text ''Item at index.'']]]]"

definition page_code :: document where
  "page_code =
     [Element ''h1'' [] [Text ''Old''],
      Element ''pre'' [(''data-language'', ''cobol'')] [Text ''MOVE A TO B.'']]"

definition page_js :: document where
  "page_js =
     [Element ''h1'' [] [Text ''New''],
      Element ''pre'' [(''data-language'', ''js'')] [Text ''let a;'']]"

definition demo_parse :: "string \<Rightarrow> document" where
  "demo_parse s =
     (if s = ''ARRAY'' then page_array
      else if s = ''CODE'' then page_code
      else if s = ''JS'' then page_js
      else [Text s])"

fun demo_print :: "node \<Rightarrow> string" where
  "demo_print (Element t a cs) =
     ''<'' @ t @ concat (map (\<lambda>(k, v). '' '' @ k @ ''='' @ v) a) @ ''>''
     @ concat (map demo_print cs) @ ''</'' @ t @ ''>''"
| "demo_print (Text s) = s"
| "demo_print (Comment s) = []"

definition demo_highlight :: "string \<Rightarrow> string option \<Rightarrow> string option" where
  "demo_highlight code lang = (if lang = Some ''cobol'' then None else Some (''#'' @ code))"

definition entry_Array :: IndexEntry where
  "entry_Array = \<lparr> e_name = ''Array'', e_path = ''js/array.html'', e_type = ''Class'' \<rparr>"

definition entry_at :: IndexEntry where
  "entry_at = \<lparr> e_name = ''at'', e_path = ''js/array.html#at'', e_type = ''Method'' \<rparr>"

definition entry_gone :: IndexEntry where
  "entry_gone = \<lparr> e_name = ''gone'', e_path = ''js/gone'', e_type = ''Method'' \<rparr>"

definition entry_old :: IndexEntry where
  "entry_old = \<lparr> e_name = ''old'', e_path = ''js/old'', e_type = ''Guide'' \<rparr>"

definition demo_meta :: DocMeta where
  "demo_meta = \<lparr> m_name = ''JavaScript'', m_slug = ''javascript'', m_type = ''mdn'' \<rparr>"

definition cobol_meta :: DocMeta where
  "cobol_meta = \<lparr> m_name = ''COBOL'', m_slug = ''cobol'', m_type = ''simple'' \<rparr>"

definition demo_archive :: "string \<Rightarrow> tar_entry list option" where
  "demo_archive sl =
     (if sl = ''javascript'' then
        Some [\<lparr> is_file = False, header_name = ''js'', content = [] \<rparr>,
              \<lparr> is_file = True, header_name = ''index.json'', content = ''INDEX'' \<rparr>,
              \<lparr> is_file = True, header_name = ''meta.json'', content = ''META'' \<rparr>,
              \<lparr> is_file = True, header_name = ''js/array.html'', content = ''ARRAY'' \<rparr>]
      else if sl = ''broken'' then
        Some [\<lparr> is_file = True, header_name = ''index.json'', content = ''GARBAGE'' \<rparr>,
              \<lparr> is_file = True, header_name = ''meta.json'', content = ''META'' \<rparr>]
      else if sl = ''cobol'' then
        Some [\<lparr> is_file = True, header_name = ''index.json'', content = ''OLDINDEX'' \<rparr>,
              \<lparr> is_file = True, header_name = ''meta.json'', content = ''OLDMETA'' \<rparr>,
              \<lparr> is_file = True, header_name = ''js/old.html'', content = ''CODE'' \<rparr>]
      else None)"

definition demo_env :: env where
  "demo_env =
     \<lparr> parseHtml = demo_parse,
       parseFragment = (\<lambda>s. [Text s]),
       serializeHtml = (\<lambda>d. concat (map demo_print d)),
       codeToHtml = demo_highlight,
       fetch = demo_archive,
       parseMeta = (\<lambda>s. if s = ''META'' \<or> s = ''JavaScript,javascript,mdn'' then Some demo_meta
                         else if s = ''OLDMETA'' \<or> s = ''COBOL,cobol,simple'' then Some cobol_meta
                         else None),
       parseIndex = (\<lambda>s. if s = ''INDEX'' then Some [entry_Array, entry_at, entry_gone]
                          else if s = ''OLDINDEX'' then Some [entry_old, entry_gone]
                          else None),
       stringifyMeta = (\<lambda>m. m_name m @ '','' @ m_slug m @ '','' @ m_type m),
       stringifyItems = (\<lambda>items. concat (map (\<lambda>i. name i @ ''@'' @ path i @ '';'') items)),
       parseItems = (\<lambda>s. Some (map (\<lambda>w. \<lparr> slug = [], name = w, path = [], anchor = None,
                                            label = [], detail = [], description = [] \<rparr>)
                                   (butlast (split_on (CHR '';'') s)))),
       mkdirOk = (\<lambda>p. True),
       writeOk = (\<lambda>p. True) \<rparr>"

text \<open>A downloader as the constructor leaves it, on an empty disk.\<close>

definition new_downloader :: "string \<Rightarrow> downloader" where
  "new_downloader sp =
     \<lparr> storePath = sp, d_slug = [], docsetPath = [], docsetName = [],
       documents = Map.empty, processedDocuments = {}, parsedDocuments = [],
       files = Map.empty, dirs = {}, console = [] \<rparr>"

section \<open>Notions used in the statements\<close>

text \<open>The last segment of a path, and a segment that normalisation keeps.\<close>

definition last_segment :: "string \<Rightarrow> string" where
  "last_segment p = last (split_on (CHR ''/'') p)"

definition proper_segment :: "string \<Rightarrow> bool" where
  "proper_segment s \<longleftrightarrow> s \<noteq> [] \<and> s \<noteq> ''.'' \<and> s \<noteq> ''..''"

text \<open>The file an entry refers to: the local \<^verbatim>\<open>path\<close> of \<^verbatim>\<open>_processEntry\<close>.\<close>

definition entry_file :: "IndexEntry \<Rightarrow> string" where
  "entry_file e = fst (split_path (e_path e)) @ ''.html''"

text \<open>
  What holds of the two tiers of the cache while \<^verbatim>\<open>_download\<close> runs: nothing is
  ever added to \<^verbatim>\<open>_processedDocuments\<close>, and every parsed document came from an
  extracted file.
\<close>

definition cache_ok :: "downloader \<Rightarrow> bool" where
  "cache_ok st \<longleftrightarrow>
     processedDocuments st = {} \<and>
     (\<forall>k \<in> fst ` set (parsedDocuments st). documents st k \<noteq> None)"

text \<open>The item of an entry whose document is missing.\<close>

definition missing_item :: "downloader \<Rightarrow> IndexEntry \<Rightarrow> DocItem" where
  "missing_item st e =
     \<lparr> slug = d_slug st, name = ''~'' @ e_name e @ ''~'', path = entry_file e,
       anchor = snd (split_path (e_path e)),
       label = categorize (e_type e) @ '' '' @ e_name e,
       detail = ''ERROR: Documentation missing for item.'',
       description = docsetName st @ '' - '' @ e_type e \<rparr>"

text \<open>A downloader that holds the extracted page \<^verbatim>\<open>js/array.html\<close>.\<close>

definition demo_state :: downloader where
  "demo_state = (new_downloader ''/store'')\<lparr>documents := [''js/array.html'' \<mapsto> ''ARRAY'']\<rparr>"

text \<open>
  Two downloaders that agree on every field of the object, whatever the disk and
  the console hold; and the collaborators with another disk.
\<close>

definition same_memory :: "downloader \<Rightarrow> downloader \<Rightarrow> bool" where
  "same_memory st st' \<longleftrightarrow>
     storePath st = storePath st' \<and> d_slug st = d_slug st' \<and> docsetPath st = docsetPath st'
     \<and> docsetName st = docsetName st' \<and> documents st = documents st'
     \<and> processedDocuments st = processedDocuments st'
     \<and> parsedDocuments st = parsedDocuments st'"

definition with_disk :: "env \<Rightarrow> (string \<Rightarrow> bool) \<Rightarrow> (string \<Rightarrow> bool) \<Rightarrow> env" where
  "with_disk ev mk wr = ev\<lparr>mkdirOk := mk, writeOk := wr\<rparr>"

text \<open>The collaborators with a disk that refuses every directory and every file,
  and a downloader at work on the docset \<^verbatim>\<open>javascript\<close>.\<close>

definition refusing_env :: env where
  "refusing_env = demo_env\<lparr>mkdirOk := (\<lambda>p. False), writeOk := (\<lambda>p. False)\<rparr>"

definition javascript_state :: downloader where
  "javascript_state =
     demo_state\<lparr>d_slug := ''javascript'', docsetPath := ''/store/javascript'',
                docsetName := ''JavaScript''\<rparr>"

text \<open>The document that \<^verbatim>\<open>_processDocument\<close> returns for a file: none when the
  file is not among the extracted ones or the highlighter throws.  And a run of
  requests to \<^verbatim>\<open>_getDocument\<close>, one path after the other.\<close>

definition transformed :: "env \<Rightarrow> downloader \<Rightarrow> string \<Rightarrow> document option" where
  "transformed ev st f =
     (case documents st f of
        None \<Rightarrow> None
      | Some html \<Rightarrow>
          (case highlight_all ev (fix_elements ev (parseHtml ev html)) of
             Inl e \<Rightarrow> None
           | Inr d \<Rightarrow> Some (docset_fixes (docsetName st) d)))"

definition requests :: "env \<Rightarrow> string list \<Rightarrow> downloader \<Rightarrow> downloader" where
  "requests ev fs st = fold (\<lambda>f s. snd (getDocument ev f s)) fs st"

text \<open>A downloader that holds the page \<^verbatim>\<open>a.html\<close> and 64 more pages.\<close>

definition other_pages :: "nat \<Rightarrow> string list" where
  "other_pages n = map (\<lambda>i. ''p'' @ toString_nat i @ ''.html'') [0..<n]"

definition pages_state :: downloader where
  "pages_state =
     javascript_state
       \<lparr>documents := (\<lambda>f. if f \<in> set (''a.html'' # other_pages 64) then Some ''ARRAY'' else None)\<rparr>"

text \<open>The state in which \<^verbatim>\<open>_download\<close> starts to work.\<close>

definition reset :: "string \<Rightarrow> downloader \<Rightarrow> downloader" where
  "reset sl st0 = st0\<lparr>documents := Map.empty, processedDocuments := {}, parsedDocuments := [],
                      d_slug := sl, docsetPath := path_join (storePath st0) sl\<rparr>"

text \<open>What \<^verbatim>\<open>_download\<close> does after \<^verbatim>\<open>await this._fetchExtract()\<close>.\<close>

definition index_docset :: "env \<Rightarrow> downloader \<Rightarrow> (error + unit) \<times> downloader" where
  "index_docset ev st2 =
     (case (documents st2 ''index.json'', documents st2 ''meta.json'') of
        (Some indexFile, Some metaFile) \<Rightarrow>
          (case parseMeta ev metaFile of
             None \<Rightarrow> (Inl ManifestError, st2)
           | Some meta \<Rightarrow>
               (let st3 = writeFile ev ''meta.json'' (stringifyMeta ev meta) st2;
                    st4 = st3\<lparr>docsetName := m_name meta\<rparr>
                in case parseIndex ev indexFile of
                     None \<Rightarrow> (Inl ManifestError, st4)
                   | Some entries \<Rightarrow>
                       (case processEntries ev entries 0 (length entries) st4 of
                          (Inl e, st5) \<Rightarrow> (Inl e, st5)
                        | (Inr items, st5) \<Rightarrow>
                            (Inr (),
                             writeFile ev ''items.json'' (stringifyItems ev items) st5))))
      | _ \<Rightarrow> (Inr (), st2\<lparr>console := console st2 @ [NoManifests]\<rparr>))"

text \<open>A downloader that holds the extracted page \<^verbatim>\<open>js/old.html\<close>, whose code block
  is in a language the highlighter rejects.\<close>

definition cobol_state :: downloader where
  "cobol_state = (new_downloader ''/store'')\<lparr>documents := [''js/old.html'' \<mapsto> ''CODE'']\<rparr>"

text \<open>The collaborators with a highlighter that accepts every language.\<close>

definition plain_env :: env where
  "plain_env = demo_env\<lparr>codeToHtml := (\<lambda>code lang. Some code)\<rparr>"

text \<open>A second downloader that holds the same page and differs in all the rest.\<close>

definition other_state :: downloader where
  "other_state = demo_state\<lparr> d_slug := ''elsewhere'', docsetPath := ''/tmp/elsewhere'',
                            parsedDocuments := [(''js/other.html'', [])],
                            processedDocuments := {''js/array.html''},
                            files := [''/tmp/elsewhere/js/array.html'' \<mapsto> ''stale''],
                            console := [FetchFailed] \<rparr>"

text \<open>A downloader whose map is full: 64 entries, the oldest under the key \<^verbatim>\<open>x\<close>.\<close>

definition full_state :: downloader where
  "full_state =
     demo_state\<lparr>parsedDocuments := map (\<lambda>i. (replicate (Suc i) (CHR ''x''), [])) [0..<64]\<rparr>"

text \<open>A node below which there is no \<^verbatim>\<open>thead\<close>, \<^verbatim>\<open>tbody\<close> or grid row.\<close>

fun plain :: "node \<Rightarrow> bool" where
  "plain (Element t a cs) =
     (t \<noteq> ''thead'' \<and> t \<noteq> ''tbody'' \<and> t \<noteq> ''vscode-data-grid-row'' \<and> list_all plain cs)"
| "plain _ = True"

definition is_grid_row :: "node \<Rightarrow> bool" where
  "is_grid_row e \<longleftrightarrow> tagName e = ''vscode-data-grid-row''"

text \<open>A table of two columns, with two rows in the head and three in the body.\<close>

definition simple_table :: document where
  "simple_table =
     [Element ''table'' []
        [Element ''thead'' []
           [Element ''tr'' [] [Element ''th'' [] [Text ''A''], Element ''th'' [] [Text ''B'']],
            Element ''tr'' [] [Element ''th'' [] [Text ''C''], Element ''th'' [] [Text ''D'']]],
         Element ''tbody'' []
           [Element ''tr'' [] [Element ''td'' [] [Text ''1''], Element ''td'' [] [Text ''2'']],
            Element ''tr'' [] [Element ''td'' [] [Text ''3''], Element ''td'' [] [Text ''4'']],
            Element ''tr'' [] [Element ''td'' [] [Text ''5''], Element ''td'' [] [Text ''6'']]]]]"

text \<open>
  A place in a document: the elements around it, from the root inwards, each with
  the siblings to its left and to its right.  \<open>plug\<close> puts nodes into the place.
  The table step acts on the siblings of a frame and leaves the frame itself, as
  long as no frame is a \<^verbatim>\<open>thead\<close> or a \<^verbatim>\<open>tbody\<close>.  A plain frame has no
  \<^verbatim>\<open>thead\<close>, \<^verbatim>\<open>tbody\<close> or grid row beside the place.
\<close>

type_synonym frame = "node list \<times> string \<times> attrs \<times> node list"

fun plug :: "frame list \<Rightarrow> node list \<Rightarrow> node list" where
  "plug [] ns = ns"
| "plug ((l, t, a, r) # fs) ns = l @ [Element t a (plug fs ns)] @ r"

definition restructure_frame :: "frame \<Rightarrow> frame" where
  "restructure_frame f =
     (case f of (l, t, a, r) \<Rightarrow> (restructure_tables l, t, a, restructure_tables r))"

definition outside_rows :: "frame \<Rightarrow> bool" where
  "outside_rows f = (case f of (l, t, a, r) \<Rightarrow> t \<noteq> ''thead'' \<and> t \<noteq> ''tbody'')"

definition plain_frame :: "frame \<Rightarrow> bool" where
  "plain_frame f =
     (case f of (l, t, a, r) \<Rightarrow>
        list_all plain l \<and> list_all plain r \<and> t \<noteq> ''vscode-data-grid-row'')"

text \<open>The grid rows of a document, and its \<^verbatim>\<open>thead\<close> and \<^verbatim>\<open>tbody\<close> elements,
  in document order.\<close>

definition grid_rows :: "document \<Rightarrow> node list" where
  "grid_rows d = filter is_grid_row (all_elements d)"

definition is_row_group :: "node \<Rightarrow> bool" where
  "is_row_group e \<longleftrightarrow> tagName e = ''thead'' \<or> tagName e = ''tbody''"

definition row_groups :: "document \<Rightarrow> node list" where
  "row_groups d = filter is_row_group (all_elements d)"

text \<open>
  A page with a table as an indented source parses: text between the rows and
  between the cells.  A table inside a cell of another table.  Collaborators whose
  parser knows the page, and a downloader that holds it.
\<close>

definition spaced_row :: "string \<Rightarrow> string \<Rightarrow> string \<Rightarrow> node" where
  "spaced_row cell a b =
     Element ''tr'' []
       [Text ''\<newline>      '', Element cell [] [Text a],
        Text ''\<newline>      '', Element cell [] [Text b], Text ''\<newline>    '']"

definition spaced_head :: "node list" where
  "spaced_head =
     [Text ''\<newline>    '', spaced_row ''th'' ''A'' ''B'',
      Text ''\<newline>    '', spaced_row ''th'' ''C'' ''D'', Text ''\<newline>  '']"

definition spaced_body :: "node list" where
  "spaced_body =
     [Text ''\<newline>    '', spaced_row ''td'' ''1'' ''2'',
      Text ''\<newline>    '', spaced_row ''td'' ''3'' ''4'',
      Text ''\<newline>    '', spaced_row ''td'' ''5'' ''6'', Text ''\<newline>  '']"

definition page_frames :: "frame list" where
  "page_frames = [([], ''html'', [], []), ([Element ''head'' [] []], ''body'', [], [])]"

definition table_page :: document where
  "table_page =
     plug page_frames
       ([Element ''h1'' [] [Text ''Sizes'']]
        @ [Element ''table'' [(''class'', ''simple'')]
             ([Text ''\<newline>  ''] @ [Element ''thead'' [] spaced_head]
              @ [Text ''\<newline>  ''] @ [Element ''tbody'' [] spaced_body] @ [Text ''\<newline>''])]
        @ [Element ''p'' [] [Text ''End.'']])"

definition nested_table :: document where
  "nested_table =
     [Element ''table'' []
        [Element ''tbody'' [] [Element ''tr'' [] [Element ''td'' [] simple_table]]]]"

definition table_env :: env where
  "table_env = demo_env\<lparr>parseHtml := (\<lambda>s. if s = ''TABLE'' then table_page else demo_parse s)\<rparr>"

definition table_state :: downloader where
  "table_state = javascript_state\<lparr>documents := [''sizes.html'' \<mapsto> ''TABLE'']\<rparr>"

text \<open>The downloader after the first part of the download of \<^verbatim>\<open>broken\<close>, and an
  adapter as its constructor leaves it.\<close>

definition broken_start :: downloader where
  "broken_start = snd (download_start ''broken'' False (new_downloader ''/store''))"

definition new_adapter :: adapter where
  "new_adapter = \<lparr> a_items = [], manifests = Map.empty, shown = [] \<rparr>"

text \<open>The downloader after the first part of the download of \<^verbatim>\<open>javascript\<close>;
  the downloader after the whole download of \<^verbatim>\<open>broken\<close>; an adapter that has
  the manifest of \<^verbatim>\<open>broken\<close> from a load before.\<close>

definition javascript_start :: downloader where
  "javascript_start = snd (download_start ''javascript'' False (new_downloader ''/store''))"

definition broken_failed :: downloader where
  "broken_failed = snd (download_slug demo_env ''broken'' False (new_downloader ''/store''))"

definition broken_adapter :: adapter where
  "broken_adapter = new_adapter\<lparr>manifests := [''broken'' \<mapsto> demo_meta]\<rparr>"

text \<open>Both manifests of a slug are on the disk; the items that its
  \<^verbatim>\<open>items.json\<close> holds.\<close>

definition both_files :: "downloader \<Rightarrow> string \<Rightarrow> bool" where
  "both_files st sl \<longleftrightarrow>
     existsSync st (path_join3 (storePath st) sl ''meta.json'')
     \<and> existsSync st (path_join3 (storePath st) sl ''items.json'')"

definition items_on_disk :: "env \<Rightarrow> downloader \<Rightarrow> string \<Rightarrow> DocItem list" where
  "items_on_disk ev st sl =
     (case files st (path_join3 (storePath st) sl ''items.json'') of
        None \<Rightarrow> []
      | Some text \<Rightarrow> (case parseItems ev text of None \<Rightarrow> [] | Some its \<Rightarrow> its))"

text \<open>The downloader after a download of \<^verbatim>\<open>javascript\<close> alone.\<close>

definition javascript_done :: downloader where
  "javascript_done = snd (download_slug plain_env ''javascript'' True (new_downloader ''/store''))"

section \<open>Splitting the path of an entry\<close>

lemma split_on_nonempty: "split_on c s \<noteq> []"
  by (induction s) (auto split: list.splits)

lemma split_on_hd: "c \<notin> set (hd (split_on c s))"
  by (induction s) (auto split: list.splits)

subsection \<open>The last segment of a joined path\<close>

lemma split_on_append: "split_on c (x @ c # y) = split_on c x @ split_on c y"
  by (induction x) (auto split: list.splits simp: split_on_nonempty)

lemma split_on_no_sep: "c \<notin> set s \<Longrightarrow> split_on c s = [s]"
  by (induction s) auto

lemma split_on_segments: "x \<in> set (split_on c p) \<Longrightarrow> c \<notin> set x"
  by (induction p arbitrary: x) (auto split: if_splits list.splits)

lemma join_with_snoc:
  "join_with c (xs @ [s]) = (if xs = [] then s else join_with c xs @ c # s)"
  by (induction c xs rule: join_with.induct) auto

lemma split_on_append_tail:
  "c \<notin> set y \<Longrightarrow>
     split_on c (x @ y) = butlast (split_on c x) @ [last (split_on c x) @ y]"
proof (induction x)
  case Nil
  then show ?case by (simp add: split_on_no_sep)
next
  case (Cons a x)
  obtain q qs where q: "split_on c x = q # qs"
    using split_on_nonempty [of c x] by (cases "split_on c x") auto
  show ?case using Cons by (cases qs) (auto simp: q)
qed

lemma last_split_on_append:
  "c \<notin> set y \<Longrightarrow> last (split_on c (x @ y)) = last (split_on c x) @ y"
  by (simp add: split_on_append_tail)

lemma join_with_Cons: "join_with c ((a # q) # qs) = a # join_with c (q # qs)"
  by (cases qs) simp_all

lemma join_with_split_on: "join_with c (split_on c p) = p"
proof (induction p)
  case Nil
  then show ?case by simp
next
  case (Cons a p)
  obtain q qs where q: "split_on c p = q # qs"
    using split_on_nonempty [of c p] by (cases "split_on c p") auto
  show ?case using Cons by (auto simp: q join_with_Cons)
qed

lemma last_last_split_on:
  assumes "last (split_on c p) \<noteq> []"
  shows "last p = last (last (split_on c p))"
proof -
  obtain ss where ss: "split_on c p = ss @ [last (split_on c p)]"
    using split_on_nonempty [of c p] by (metis append_butlast_last_id)
  have "p = join_with c (ss @ [last (split_on c p)])"
    using join_with_split_on [of c p] ss by simp
  then have "p = (if ss = [] then last (split_on c p) else join_with c ss @ c # last (split_on c p))"
    by (simp add: join_with_snoc)
  then show ?thesis using assms by (metis last_ConsR last_appendR list.distinct(1))
qed

lemma normalizeString_snoc:
  "proper_segment s \<Longrightarrow>
     normalizeString ab res (ss @ [s]) = normalizeString ab res ss @ [s]"
  by (induction ab res ss rule: normalizeString.induct)
     (auto simp: proper_segment_def split: list.splits)

lemma last_segment_normalize:
  assumes "proper_segment (last_segment p)"
  shows "last_segment (path_normalize p) = last_segment p"
proof -
  let ?s = "last_segment p"
  have ne: "?s \<noteq> []" using assms by (simp add: proper_segment_def)
  have p: "p \<noteq> []" using ne by (auto simp: last_segment_def)
  have ns: "CHR ''/'' \<notin> set ?s"
    unfolding last_segment_def using split_on_segments [of _ "CHR ''/''" p] split_on_nonempty [of "CHR ''/''" p]
    by (meson last_in_set)
  have tr: "last p \<noteq> CHR ''/''"
    using last_last_split_on [of "CHR ''/''" p] ne ns unfolding last_segment_def
    by (metis last_in_set)
  obtain ss where ss: "split_on (CHR ''/'') p = ss @ [?s]"
    unfolding last_segment_def using split_on_nonempty [of "CHR ''/''" p]
    by (metis append_butlast_last_id)
  let ?n = "normalizeString (hd p \<noteq> CHR ''/'') [] ss"
  have q: "join_with (CHR ''/'') (normalizeString (hd p \<noteq> CHR ''/'') [] (split_on (CHR ''/'') p))
           = (if ?n = [] then ?s else join_with (CHR ''/'') ?n @ CHR ''/'' # ?s)"
    unfolding ss normalizeString_snoc [OF assms] join_with_snoc ..
  have "\<exists>x. path_normalize p = x @ CHR ''/'' # ?s \<or> path_normalize p = ?s"
    using p tr ne unfolding path_normalize_def Let_def q by auto
  then show ?thesis
    using ns by (auto simp: last_segment_def split_on_append split_on_no_sep split_on_nonempty)
qed

lemma last_segment_join:
  assumes "proper_segment (last_segment b)"
  shows "last_segment (path_join a b) = last_segment b"
proof -
  have b: "b \<noteq> []" using assms by (auto simp: last_segment_def proper_segment_def)
  have "last_segment (a @ CHR ''/'' # b) = last_segment b"
    by (simp add: last_segment_def split_on_append split_on_nonempty)
  moreover have "path_join a b = path_normalize (if a = [] then b else a @ CHR ''/'' # b)"
    using b by (simp add: path_join_def path_join_list_def)
  ultimately show ?thesis
    using assms by (simp add: last_segment_normalize)
qed

lemma path_join_differ:
  assumes "proper_segment (last_segment f)" and "proper_segment (last_segment g)"
    and "last_segment f \<noteq> last_segment g"
  shows "path_join d f \<noteq> path_join d g"
  using assms last_segment_join by metis

subsection \<open>The two parts of the path\<close>

lemma split_path_no_hash: "CHR ''#'' \<notin> set (fst (split_path p))"
proof -
  obtain r rs where r: "split_on (CHR ''#'') (strip_html p) = r # rs"
    using split_on_nonempty by (cases "split_on (CHR ''#'') (strip_html p)") auto
  have "CHR ''#'' \<notin> set r" using split_on_hd [of "CHR ''#''" "strip_html p"] r by simp
  then show ?thesis
    by (cases rs) (simp_all add: split_path_def js_split_def r numeral_2_eq_2)
qed

lemma split_path_api_foo: "split_path ''api/foo#bar-baz'' = (''api/foo'', Some ''bar-baz'')"
  by (simp add: split_path_def js_split_def strip_html_def endsWith_def numeral_2_eq_2)

lemma split_path_array_at: "split_path ''js/array.html#at'' = (''js/array.html'', Some ''at'')"
  by (simp add: split_path_def js_split_def strip_html_def endsWith_def numeral_2_eq_2)

lemma split_path_array: "split_path ''js/array.html'' = (''js/array'', None)"
  by (simp add: split_path_def js_split_def strip_html_def endsWith_def numeral_2_eq_2)

lemma split_path_gone: "split_path ''js/gone'' = (''js/gone'', None)"
  by (simp add: split_path_def js_split_def strip_html_def endsWith_def numeral_2_eq_2)

section \<open>The cache while a download runs\<close>

lemma processEntry_missing:
  assumes "cache_ok st" and "documents st (entry_file e) = None"
  shows "processEntry ev e st = (Inr (missing_item st e), st)"
proof -
  have "\<not> lru_has (entry_file e) (parsedDocuments st)"
    using assms by (auto simp: cache_ok_def lru_has_def)
  moreover have "entry_file e \<notin> processedDocuments st"
    using assms by (simp add: cache_ok_def)
  ultimately have "getDocument ev (entry_file e) st = (Inr None, st)"
    using assms(2) by (simp add: getDocument_def processDocument_def)
  then show ?thesis
    by (auto simp: processEntry_def entry_file_def missing_item_def Let_def split: prod.splits)
qed

lemma writeFile_mem [simp]:
  "documents (writeFile ev f t st) = documents st"
  "processedDocuments (writeFile ev f t st) = processedDocuments st"
  "parsedDocuments (writeFile ev f t st) = parsedDocuments st"
  "docsetName (writeFile ev f t st) = docsetName st"
  "d_slug (writeFile ev f t st) = d_slug st"
  "docsetPath (writeFile ev f t st) = docsetPath st"
  "storePath (writeFile ev f t st) = storePath st"
  by (simp_all add: writeFile_def Let_def)

lemma lru_touch_keys: "fst ` set (lru_touch k v l) = insert k (fst ` set l)"
  unfolding lru_touch_def by (induction l) auto

lemma lru_set_keys: "fst ` set (lru_set n k v l) \<subseteq> insert k (fst ` set l)"
proof (cases "lru_has k l")
  case True
  then show ?thesis by (simp add: lru_set_def lru_touch_keys)
next
  case False
  have "set (tl (l @ [(k, v)])) \<subseteq> set (l @ [(k, v)])" by (cases l) auto
  then have "fst ` set (tl (l @ [(k, v)])) \<subseteq> fst ` set (l @ [(k, v)])" by (rule image_mono)
  then show ?thesis using False by (simp add: lru_set_def Let_def)
qed

lemma lru_get_keys: "fst ` set (snd (lru_get k l)) = fst ` set l"
proof (cases "map_of l k")
  case None
  then show ?thesis by (simp add: lru_get_def)
next
  case (Some v)
  then have "(k, v) \<in> set l" by (rule map_of_SomeD)
  then have "k \<in> fst ` set l" by force
  then show ?thesis using Some by (auto simp: lru_get_def lru_touch_keys)
qed

lemma processDocument_mem:
  assumes "processDocument ev f st = (r, st')"
  shows "documents st' = documents st \<and> processedDocuments st' = processedDocuments st
       \<and> parsedDocuments st' = parsedDocuments st \<and> docsetName st' = docsetName st
       \<and> d_slug st' = d_slug st \<and> (r \<noteq> Inr None \<longrightarrow> documents st f \<noteq> None)"
  using assms by (auto simp: processDocument_def Let_def split: option.splits sum.splits)

lemma getDocument_hit:
  "lru_has f (parsedDocuments st) \<Longrightarrow>
     getDocument ev f st =
       (Inr (fst (lru_get f (parsedDocuments st))),
        st\<lparr>parsedDocuments := snd (lru_get f (parsedDocuments st))\<rparr>)"
  by (simp add: getDocument_def case_prod_beta)

lemma getDocument_miss:
  "\<not> lru_has f (parsedDocuments st) \<Longrightarrow> f \<notin> processedDocuments st \<Longrightarrow>
     getDocument ev f st =
       (case processDocument ev f st of
          (Inl e, st') \<Rightarrow> (Inl e, st')
        | (Inr None, st') \<Rightarrow> (Inr None, st')
        | (Inr (Some d), st') \<Rightarrow>
            (Inr (Some d),
             st'\<lparr>parsedDocuments := lru_set capacity f d (parsedDocuments st')\<rparr>))"
  by (simp add: getDocument_def)

lemma getDocument_cache_ok:
  assumes "cache_ok st" and "getDocument ev f st = (r, st')"
  shows "cache_ok st' \<and> documents st' = documents st \<and> docsetName st' = docsetName st \<and> d_slug st' = d_slug st"
proof (cases "lru_has f (parsedDocuments st)")
  case True
  have "st' = st\<lparr>parsedDocuments := snd (lru_get f (parsedDocuments st))\<rparr>"
    using assms(2) unfolding getDocument_hit [OF True] by simp
  then show ?thesis using assms(1) by (simp add: cache_ok_def lru_get_keys)
next
  case False
  obtain r0 st0 where p: "processDocument ev f st = (r0, st0)" by (cases "processDocument ev f st")
  note m = processDocument_mem [OF p]
  have np: "f \<notin> processedDocuments st" using assms(1) by (simp add: cache_ok_def)
  note g = getDocument_miss [OF False np, of ev, unfolded p]
  show ?thesis
  proof (cases r0)
    case (Inl e)
    then have "st' = st0" using assms(2) unfolding g by simp
    then show ?thesis using m assms(1) by (simp add: cache_ok_def)
  next
    case (Inr d)
    show ?thesis
    proof (cases d)
      case None
      then have "st' = st0" using assms(2) Inr unfolding g by simp
      then show ?thesis using m assms(1) by (simp add: cache_ok_def)
    next
      case (Some doc)
      then have st': "st' = st0\<lparr>parsedDocuments := lru_set capacity f doc (parsedDocuments st0)\<rparr>"
        using assms(2) Inr unfolding g by simp
      have f: "documents st f \<noteq> None" using m Inr Some by simp
      have "documents st k \<noteq> None"
        if "k \<in> fst ` set (lru_set capacity f doc (parsedDocuments st))" for k
      proof -
        have "k \<in> insert f (fst ` set (parsedDocuments st))"
          using that lru_set_keys [of capacity f doc "parsedDocuments st"] by (rule rev_subsetD)
        then show ?thesis
          using f assms(1) unfolding cache_ok_def by (elim insertE) auto
      qed
      then show ?thesis using m assms(1) unfolding cache_ok_def st' by simp
    qed
  qed
qed

lemma processEntry_unfold:
  "processEntry ev e st =
     (case getDocument ev (entry_file e) st of
        (Inl err, st') \<Rightarrow> (Inl err, st')
      | (Inr doc, st') \<Rightarrow>
          (Inr \<lparr> slug = d_slug st',
                 name = (case doc of Some d \<Rightarrow> e_name e | None \<Rightarrow> ''~'' @ e_name e @ ''~''),
                 path = entry_file e,
                 anchor = snd (split_path (e_path e)),
                 label = categorize (e_type e) @ '' '' @ e_name e,
                 detail = (case doc of
                             Some d \<Rightarrow> snippet (snd (split_path (e_path e))) d
                           | None \<Rightarrow> ''ERROR: Documentation missing for item.''),
                 description = docsetName st' @ '' - '' @ e_type e \<rparr>,
           st'))"
  unfolding processEntry_def entry_file_def Let_def by (simp add: case_prod_beta)

lemma processEntry_cache_ok:
  assumes "cache_ok st" and "processEntry ev e st = (r, st')"
  shows "cache_ok st' \<and> documents st' = documents st \<and> docsetName st' = docsetName st \<and> d_slug st' = d_slug st"
proof -
  obtain r0 st0 where g: "getDocument ev (entry_file e) st = (r0, st0)"
    by (cases "getDocument ev (entry_file e) st")
  have "st' = st0" using assms(2) unfolding processEntry_unfold g by (cases r0) simp_all
  then show ?thesis using getDocument_cache_ok [OF assms(1) g] by simp
qed

section \<open>The entry indexer\<close>

lemma categorize_Method: "categorize ''Method'' = ''$(symbol-misc)''"
  by (simp add: categorize_def toLowerCase_def lower_char_def startsWith_def)

lemma demo_state_cache_ok: "cache_ok demo_state"
  by (simp add: cache_ok_def demo_state_def new_downloader_def)

text \<open>
  Claim C1.  The path of an entry is split into a file that ends in \<^verbatim>\<open>.html\<close> and
  an anchor; the entry \<^verbatim>\<open>js/array.html#at\<close> should give the path
  \<^verbatim>\<open>js/array.html\<close> and the anchor \<^verbatim>\<open>at\<close>.  The source removes the suffix
  \<^verbatim>\<open>.html\<close> from the whole path, fragment included, before it splits at \<^verbatim>\<open>#\<close>:
  a path that has both keeps its suffix and gets a second one.  With the page
  \<^verbatim>\<open>js/array.html\<close> extracted, that entry yields the path \<^verbatim>\<open>js/array.html.html\<close>,
  finds no document, and so is marked as missing.  (That no path holds a \<^verbatim>\<open>#\<close> is
  lemma \<open>split_path_no_hash\<close>; the entry \<^verbatim>\<open>api/foo#bar-baz\<close> is lemma
  \<open>split_path_api_foo\<close>.)
\<close>

theorem C1_fragment_after_html_suffix:
  "processEntry demo_env entry_at demo_state =
     (Inr \<lparr> slug = [], name = ''~at~'', path = ''js/array.html.html'', anchor = Some ''at'',
            label = ''$(symbol-misc) at'',
            detail = ''ERROR: Documentation missing for item.'',
            description = '' - Method'' \<rparr>,
      demo_state)"
proof -
  have f: "entry_file entry_at = ''js/array.html.html''"
    by (simp add: entry_file_def entry_at_def split_path_array_at)
  have "documents demo_state (entry_file entry_at) = None"
    unfolding f by (simp add: demo_state_def new_downloader_def)
  then have "processEntry demo_env entry_at demo_state
               = (Inr (missing_item demo_state entry_at), demo_state)"
    using demo_state_cache_ok by (rule processEntry_missing [rotated])
  then show ?thesis
    by (simp add: missing_item_def f categorize_Method)
       (simp add: entry_at_def split_path_array_at demo_state_def new_downloader_def categorize_Method)
qed

text \<open>
  What holds of the path of every item: it is the file of the entry, it ends in
  \<^verbatim>\<open>.html\<close> and it holds no \<^verbatim>\<open>#\<close>; the anchor is the second part of the split.
\<close>

theorem item_path_is_a_file:
  assumes "processEntry ev e st = (Inr item, st')"
  shows "CHR ''#'' \<notin> set (path item) \<and> endsWith (path item) ''.html''
       \<and> path item = entry_file e \<and> anchor item = snd (split_path (e_path e))"
proof -
  have p: "path item = entry_file e" and a: "anchor item = snd (split_path (e_path e))"
    using assms unfolding processEntry_unfold by (auto split: prod.splits sum.splits)
  have "CHR ''#'' \<notin> set (entry_file e)"
    using split_path_no_hash [of "e_path e"] by (simp add: entry_file_def)
  moreover have "endsWith (entry_file e) ''.html''"
    by (simp add: entry_file_def endsWith_def)
  ultimately show ?thesis using p a by simp
qed

theorem item_path_is_a_file_witness:
  "\<exists>item st'. processEntry demo_env \<lparr> e_name = ''foo'', e_path = ''api/foo#bar-baz'', e_type = ''Function'' \<rparr>
                   demo_state = (Inr item, st')
     \<and> path item = ''api/foo.html'' \<and> anchor item = Some ''bar-baz''
     \<and> CHR ''#'' \<notin> set (path item)"
proof -
  let ?e = "\<lparr> e_name = ''foo'', e_path = ''api/foo#bar-baz'', e_type = ''Function'' \<rparr>"
  have f: "entry_file ?e = ''api/foo.html''"
    by (simp add: entry_file_def split_path_api_foo)
  have "documents demo_state (entry_file ?e) = None"
    unfolding f by (simp add: demo_state_def new_downloader_def)
  then have g: "processEntry demo_env ?e demo_state = (Inr (missing_item demo_state ?e), demo_state)"
    using demo_state_cache_ok by (rule processEntry_missing [rotated])
  from item_path_is_a_file [OF g] show ?thesis
    using g by (simp add: f split_path_api_foo)
qed

text \<open>
  Claim C4.  An entry whose file is absent from the extracted files still gets its
  item: \<^verbatim>\<open>_processEntry\<close> returns normally and leaves the downloader as it was, the
  name of the item is wrapped in \<^verbatim>\<open>~\<close>, its detail is the fixed error string, and
  the loop over the entries goes on with the entries that follow, the item in front
  of theirs.  The hypothesis \<open>cache_ok\<close> holds when the loop starts and after every
  entry (lemmas \<open>processEntry_cache_ok\<close> above).
\<close>

theorem C4_missing_document_degrades:
  assumes "cache_ok st" and "documents st (entry_file e) = None"
  shows "processEntry ev e st = (Inr (missing_item st e), st)
       \<and> name (missing_item st e) = ''~'' @ e_name e @ ''~''
       \<and> detail (missing_item st e) = ''ERROR: Documentation missing for item.''
       \<and> processEntries ev (e # es) i n st =
           (case processEntries ev es (Suc i) n
                   (st\<lparr>console := console st @ [Processed (e_name e) i n]\<rparr>) of
              (Inl err, st') \<Rightarrow> (Inl err, st')
            | (Inr items, st') \<Rightarrow> (Inr (missing_item st e # items), st'))"
proof -
  have p: "processEntry ev e st = (Inr (missing_item st e), st)"
    using assms by (rule processEntry_missing)
  have n: "name (missing_item st e) = ''~'' @ e_name e @ ''~''"
    and d: "detail (missing_item st e) = ''ERROR: Documentation missing for item.''"
    by (simp_all add: missing_item_def)
  have l: "processEntries ev (e # es) i n st =
           (case processEntries ev es (Suc i) n
                   (st\<lparr>console := console st @ [Processed (e_name e) i n]\<rparr>) of
              (Inl err, st') \<Rightarrow> (Inl err, st')
            | (Inr items, st') \<Rightarrow> (Inr (missing_item st e # items), st'))"
    by (simp add: p)
  from p n d l show ?thesis by (intro conjI)
qed

theorem C4_missing_document_degrades_witness:
  "cache_ok demo_state \<and> documents demo_state (entry_file entry_gone) = None
   \<and> processEntry demo_env entry_gone demo_state =
       (Inr \<lparr> slug = [], name = ''~gone~'', path = ''js/gone.html'', anchor = None,
              label = ''$(symbol-misc) gone'',
              detail = ''ERROR: Documentation missing for item.'',
              description = '' - Method'' \<rparr>,
        demo_state)
   \<and> processEntries demo_env [entry_gone] 0 1 demo_state =
       (Inr [missing_item demo_state entry_gone],
        demo_state\<lparr>console := [Processed ''gone'' 0 1]\<rparr>)"
proof -
  have f: "entry_file entry_gone = ''js/gone.html''"
    by (simp add: entry_file_def entry_gone_def split_path_gone)
  have h1: "cache_ok demo_state" by (rule demo_state_cache_ok)
  have h2: "documents demo_state (entry_file entry_gone) = None"
    unfolding f by (simp add: demo_state_def new_downloader_def)
  have i: "missing_item demo_state entry_gone =
             \<lparr> slug = [], name = ''~gone~'', path = ''js/gone.html'', anchor = None,
               label = ''$(symbol-misc) gone'',
               detail = ''ERROR: Documentation missing for item.'',
               description = '' - Method'' \<rparr>"
    by (simp add: missing_item_def f)
       (simp add: entry_gone_def split_path_gone demo_state_def new_downloader_def categorize_Method)
  have c: "console demo_state @ [Processed (e_name entry_gone) 0 1] = [Processed ''gone'' 0 1]"
    by (simp add: demo_state_def new_downloader_def entry_gone_def)
  note a = C4_missing_document_degrades [OF h1 h2, of demo_env "[]" 0 1]
  from a have "processEntry demo_env entry_gone demo_state
                 = (Inr (missing_item demo_state entry_gone), demo_state)"
    by (rule conjunct1)
  moreover from a have "processEntries demo_env [entry_gone] 0 1 demo_state =
       (Inr [missing_item demo_state entry_gone],
        demo_state\<lparr>console := [Processed ''gone'' 0 1]\<rparr>)"
    unfolding c by (simp del: processEntries.simps(2))
  ultimately show ?thesis using h1 h2 unfolding i by (intro conjI)
qed

section \<open>Writes that fail\<close>

lemma same_memory_refl: "same_memory st st"
  by (simp add: same_memory_def)

lemma same_memory_writeFile:
  "same_memory st st' \<Longrightarrow> same_memory (writeFile ev f t st) (writeFile ev' f' t' st')"
  by (simp add: same_memory_def)

lemma same_memory_console:
  "same_memory st st' \<Longrightarrow> same_memory (st\<lparr>console := c\<rparr>) (st'\<lparr>console := c'\<rparr>)"
  by (simp add: same_memory_def)

lemma highlight_with_disk:
  "highlight (with_disk ev mk wr) n = highlight ev n"
  "highlight_all (with_disk ev mk wr) ns = highlight_all ev ns"
proof (induction ev n and ev ns rule: highlight_highlight_all.induct)
  case (1 ev t a cs)
  then show ?case by (simp add: with_disk_def split: option.splits sum.splits)
next
  case (5 ev n ns)
  then show ?case by (simp split: sum.splits)
qed simp_all

lemma fix_elements_with_disk: "fix_elements (with_disk ev mk wr) d = fix_elements ev d"
  by (simp add: fix_elements_def with_disk_def)

lemma processDocument_with_disk:
  assumes "same_memory st st'"
  shows "fst (processDocument (with_disk ev mk wr) f st') = fst (processDocument ev f st)
       \<and> same_memory (snd (processDocument ev f st)) (snd (processDocument (with_disk ev mk wr) f st'))"
proof -
  have d: "documents st' = documents st" and n: "docsetName st' = docsetName st"
    using assms by (simp_all add: same_memory_def)
  have p: "parseHtml (with_disk ev mk wr) = parseHtml ev" by (simp add: with_disk_def)
  show ?thesis
    unfolding processDocument_def d n p highlight_with_disk fix_elements_with_disk
    using assms
    by (auto simp: Let_def with_disk_def same_memory_writeFile split: option.splits sum.splits)
qed

lemma getDocument_with_disk:
  assumes "same_memory st st'" and "f \<notin> processedDocuments st"
  shows "fst (getDocument (with_disk ev mk wr) f st') = fst (getDocument ev f st)
       \<and> same_memory (snd (getDocument ev f st)) (snd (getDocument (with_disk ev mk wr) f st'))"
proof (cases "lru_has f (parsedDocuments st)")
  case True
  moreover have "parsedDocuments st' = parsedDocuments st"
    using assms(1) by (simp add: same_memory_def)
  ultimately show ?thesis
    using assms(1) by (simp add: getDocument_hit same_memory_def)
next
  case False
  have q: "parsedDocuments st' = parsedDocuments st" "processedDocuments st' = processedDocuments st"
    using assms(1) by (simp_all add: same_memory_def)
  obtain r s1 where a: "processDocument ev f st = (r, s1)" by (cases "processDocument ev f st")
  obtain r' s1' where b: "processDocument (with_disk ev mk wr) f st' = (r', s1')"
    by (cases "processDocument (with_disk ev mk wr) f st'")
  from processDocument_with_disk [OF assms(1), of ev mk wr f]
  have r: "r' = r" and m: "same_memory s1 s1'" by (simp_all add: a b)
  then have pd: "parsedDocuments s1' = parsedDocuments s1" by (simp add: same_memory_def)
  have g: "getDocument ev f st =
            (case (r, s1) of
               (Inl e, st') \<Rightarrow> (Inl e, st')
             | (Inr None, st') \<Rightarrow> (Inr None, st')
             | (Inr (Some d), st') \<Rightarrow>
               (Inr (Some d), st'\<lparr>parsedDocuments := lru_set capacity f d (parsedDocuments st')\<rparr>))"
    using False assms(2) by (simp add: getDocument_miss a)
  have g': "getDocument (with_disk ev mk wr) f st' =
            (case (r, s1') of
               (Inl e, st') \<Rightarrow> (Inl e, st')
             | (Inr None, st') \<Rightarrow> (Inr None, st')
             | (Inr (Some d), st') \<Rightarrow>
               (Inr (Some d), st'\<lparr>parsedDocuments := lru_set capacity f d (parsedDocuments st')\<rparr>))"
    using False assms(2) by (simp add: getDocument_miss q b r)
  show ?thesis
    unfolding g g' using m pd
    by (cases r) (auto simp: same_memory_def split: option.splits)
qed

lemma processEntry_with_disk:
  assumes "same_memory st st'" and "processedDocuments st = {}"
  shows "fst (processEntry (with_disk ev mk wr) e st') = fst (processEntry ev e st)
       \<and> same_memory (snd (processEntry ev e st)) (snd (processEntry (with_disk ev mk wr) e st'))"
proof -
  obtain r s1 where a: "getDocument ev (entry_file e) st = (r, s1)"
    by (cases "getDocument ev (entry_file e) st")
  obtain r' s1' where b: "getDocument (with_disk ev mk wr) (entry_file e) st' = (r', s1')"
    by (cases "getDocument (with_disk ev mk wr) (entry_file e) st'")
  have "entry_file e \<notin> processedDocuments st" using assms(2) by simp
  from getDocument_with_disk [OF assms(1) this, of ev mk wr]
  have r: "r' = r" and m: "same_memory s1 s1'" by (simp_all add: a b)
  then have "d_slug s1' = d_slug s1" "docsetName s1' = docsetName s1"
    by (simp_all add: same_memory_def)
  then show ?thesis
    unfolding processEntry_unfold a b r using m by (cases r) simp_all
qed

lemma processEntries_with_disk:
  assumes "same_memory st st'" and "cache_ok st"
  shows "fst (processEntries (with_disk ev mk wr) es i n st') = fst (processEntries ev es i n st)
       \<and> same_memory (snd (processEntries ev es i n st))
                      (snd (processEntries (with_disk ev mk wr) es i n st'))"
  using assms
proof (induction es arbitrary: st st' i)
  case Nil
  then show ?case by simp
next
  case (Cons e es)
  obtain r s1 where a: "processEntry ev e st = (r, s1)" by (cases "processEntry ev e st")
  obtain r' s1' where b: "processEntry (with_disk ev mk wr) e st' = (r', s1')"
    by (cases "processEntry (with_disk ev mk wr) e st'")
  have "processedDocuments st = {}" using Cons.prems(2) by (simp add: cache_ok_def)
  from processEntry_with_disk [OF Cons.prems(1) this, of ev mk wr e]
  have r: "r' = r" and m: "same_memory s1 s1'" by (simp_all add: a b)
  have c: "cache_ok s1" using processEntry_cache_ok [OF Cons.prems(2) a] by simp
  show ?case
  proof (cases r)
    case (Inl err)
    then show ?thesis using m by (simp add: a b r)
  next
    case (Inr item)
    let ?s = "s1\<lparr>console := console s1 @ [Processed (e_name e) i n]\<rparr>"
    let ?s' = "s1'\<lparr>console := console s1' @ [Processed (e_name e) i n]\<rparr>"
    have "same_memory ?s ?s'" using m by (rule same_memory_console)
    moreover have "cache_ok ?s" using c by (simp add: cache_ok_def)
    ultimately have ih:
      "fst (processEntries (with_disk ev mk wr) es (Suc i) n ?s') = fst (processEntries ev es (Suc i) n ?s)
       \<and> same_memory (snd (processEntries ev es (Suc i) n ?s))
                      (snd (processEntries (with_disk ev mk wr) es (Suc i) n ?s'))"
      by (rule Cons.IH)
    obtain q t where x: "processEntries ev es (Suc i) n ?s = (q, t)"
      by (cases "processEntries ev es (Suc i) n ?s")
    obtain q' t' where y: "processEntries (with_disk ev mk wr) es (Suc i) n ?s' = (q', t')"
      by (cases "processEntries (with_disk ev mk wr) es (Suc i) n ?s'")
    from ih have "q' = q" "same_memory t t'" by (simp_all add: x y)
    then show ?thesis by (cases q) (simp_all add: a b r Inr x y)
  qed
qed

lemma extract_entry_with_disk:
  "same_memory st st' \<Longrightarrow>
     same_memory (extract_entry ev r st) (extract_entry (with_disk ev mk wr) r st')"
  by (simp add: extract_entry_def same_memory_def with_disk_def Let_def)

lemma fold_extract_with_disk:
  "same_memory st st' \<Longrightarrow>
     same_memory (fold (extract_entry ev) rs st) (fold (extract_entry (with_disk ev mk wr)) rs st')"
  by (induction rs arbitrary: st st') (simp_all add: extract_entry_with_disk)

lemma fetchExtract_with_disk:
  "same_memory st st' \<Longrightarrow>
     same_memory (fetchExtract ev st) (fetchExtract (with_disk ev mk wr) st')"
proof -
  assume m: "same_memory st st'"
  then have s: "d_slug st' = d_slug st" by (simp add: same_memory_def)
  have f: "fetch (with_disk ev mk wr) = fetch ev" by (simp add: with_disk_def)
  show ?thesis
    unfolding fetchExtract_def extract_response_def s f
    using m by (auto split: option.splits intro: fold_extract_with_disk same_memory_console)
qed

lemma extract_entry_cache:
  "parsedDocuments (extract_entry ev r st) = parsedDocuments st"
  "processedDocuments (extract_entry ev r st) = processedDocuments st"
  by (simp_all add: extract_entry_def Let_def)

lemma fold_extract_cache:
  "parsedDocuments (fold (extract_entry ev) rs st) = parsedDocuments st
   \<and> processedDocuments (fold (extract_entry ev) rs st) = processedDocuments st"
  by (induction rs arbitrary: st) (simp_all add: extract_entry_cache)

lemma fetchExtract_cache:
  "parsedDocuments (fetchExtract ev st) = parsedDocuments st
   \<and> processedDocuments (fetchExtract ev st) = processedDocuments st"
  by (simp add: fetchExtract_def extract_response_def fold_extract_cache split: option.splits)

lemma cache_ok_fetched: "cache_ok (fetchExtract ev (reset sl st0))"
  by (simp add: cache_ok_def fetchExtract_cache reset_def)

lemma download_slug_unfold:
  "download_slug ev sl force st0 =
     (if \<not> force \<and> existsSync (reset sl st0) (docsetPath (reset sl st0))
      then (Inr (), reset sl st0)
      else index_docset ev (fetchExtract ev (reset sl st0)))"
  unfolding download_slug_def index_docset_def reset_def Let_def by simp

lemma index_docset_with_disk:
  assumes "same_memory st st'" and "cache_ok st"
  shows "fst (index_docset (with_disk ev mk wr) st') = fst (index_docset ev st)"
proof -
  have d: "documents st' = documents st" using assms(1) by (simp add: same_memory_def)
  show ?thesis
  proof (cases "documents st ''index.json''")
    case None
    then show ?thesis by (simp add: index_docset_def d)
  next
    case i: (Some indexFile)
    show ?thesis
    proof (cases "documents st ''meta.json''")
      case None
      then show ?thesis by (simp add: index_docset_def d i)
    next
      case m: (Some metaFile)
      show ?thesis
      proof (cases "parseMeta ev metaFile")
        case None
        then show ?thesis by (simp add: index_docset_def d i m with_disk_def)
      next
        case pm: (Some meta)
        let ?s = "(writeFile ev ''meta.json'' (stringifyMeta ev meta) st)\<lparr>docsetName := m_name meta\<rparr>"
        let ?s' = "(writeFile (with_disk ev mk wr) ''meta.json'' (stringifyMeta ev meta) st')
                     \<lparr>docsetName := m_name meta\<rparr>"
        have sm: "same_memory ?s ?s'"
          using same_memory_writeFile [OF assms(1)] by (simp add: same_memory_def)
        have ok: "cache_ok ?s" using assms(2) by (simp add: cache_ok_def)
        show ?thesis
        proof (cases "parseIndex ev indexFile")
          case None
          then show ?thesis by (simp add: index_docset_def d i m pm with_disk_def)
        next
          case (Some entries)
          obtain q t where x: "processEntries ev entries 0 (length entries) ?s = (q, t)"
            by (cases "processEntries ev entries 0 (length entries) ?s")
          obtain q' t' where
            y: "processEntries (with_disk ev mk wr) entries 0 (length entries) ?s' = (q', t')"
            by (cases "processEntries (with_disk ev mk wr) entries 0 (length entries) ?s'")
          from processEntries_with_disk [OF sm ok, of ev mk wr entries 0 "length entries"]
          have "q' = q" by (simp add: x y)
          moreover have "parseMeta (with_disk ev mk wr) = parseMeta ev"
            "parseIndex (with_disk ev mk wr) = parseIndex ev"
            "stringifyMeta (with_disk ev mk wr) = stringifyMeta ev"
            by (simp_all add: with_disk_def)
          ultimately show ?thesis
            by (cases q) (simp_all add: index_docset_def d i m pm Some x y)
        qed
      qed
    qed
  qed
qed

text \<open>
  Claim C10.  \<^verbatim>\<open>_writeFile\<close> catches what \<^verbatim>\<open>mkdir\<close> and \<^verbatim>\<open>writeFile\<close> reject:
  it always returns, it leaves the fields of the object as they are, and a write
  that is refused changes no file and is reported on the console.  Whatever
  directories and files the disk accepts or refuses (\<open>mk\<close>, \<open>wr\<close>), a page that
  is among the extracted files and whose code blocks the highlighter accepts comes
  back from \<^verbatim>\<open>_processDocument\<close> as the transformed document; in general
  \<^verbatim>\<open>_processDocument\<close>, the loop over the entries and \<^verbatim>\<open>_download\<close> end the same
  way on every disk.
\<close>

theorem C10_write_failures_are_swallowed:
  "same_memory st (writeFile ev fname body st)
   \<and> (\<not> writeOk ev (path_join (docsetPath st) fname) \<longrightarrow>
        files (writeFile ev fname body st) = files st
        \<and> console (writeFile ev fname body st)
            = console st @ [WriteFailed (path_join (docsetPath st) fname)])
   \<and> (documents st fileName = Some html
        \<and> highlight_all ev (fix_elements ev (parseHtml ev html)) = Inr d \<longrightarrow>
        processDocument (ev\<lparr>mkdirOk := mk, writeOk := wr\<rparr>) fileName st
          = (Inr (Some (docset_fixes (docsetName st) d)),
             writeFile (ev\<lparr>mkdirOk := mk, writeOk := wr\<rparr>) fileName
               (serializeHtml ev (docset_fixes (docsetName st) d)) st))
   \<and> fst (processDocument (ev\<lparr>mkdirOk := mk, writeOk := wr\<rparr>) fileName st)
       = fst (processDocument ev fileName st)
   \<and> (cache_ok st \<longrightarrow>
        fst (processEntries (ev\<lparr>mkdirOk := mk, writeOk := wr\<rparr>) es i n st)
          = fst (processEntries ev es i n st))
   \<and> fst (download_slug (ev\<lparr>mkdirOk := mk, writeOk := wr\<rparr>) sl force st)
       = fst (download_slug ev sl force st)"
proof -
  have w: "same_memory st (writeFile ev fname body st)"
    by (simp add: same_memory_def)
  have l: "\<not> writeOk ev (path_join (docsetPath st) fname) \<longrightarrow>
        files (writeFile ev fname body st) = files st
        \<and> console (writeFile ev fname body st)
            = console st @ [WriteFailed (path_join (docsetPath st) fname)]"
    by (simp add: writeFile_def Let_def)
  have h: "highlight_all (with_disk ev mk wr) ns = highlight_all ev ns" for ns
    by (rule highlight_with_disk)
  have r: "documents st fileName = Some html
        \<and> highlight_all ev (fix_elements ev (parseHtml ev html)) = Inr d \<longrightarrow>
        processDocument (with_disk ev mk wr) fileName st
          = (Inr (Some (docset_fixes (docsetName st) d)),
             writeFile (with_disk ev mk wr) fileName
               (serializeHtml ev (docset_fixes (docsetName st) d)) st)"
    unfolding processDocument_def h fix_elements_with_disk
    by (simp add: with_disk_def Let_def)
  have a: "fst (processDocument (with_disk ev mk wr) fileName st) = fst (processDocument ev fileName st)"
    using processDocument_with_disk [OF same_memory_refl] by simp
  have e: "cache_ok st \<longrightarrow>
        fst (processEntries (with_disk ev mk wr) es i n st) = fst (processEntries ev es i n st)"
    using processEntries_with_disk [OF same_memory_refl] by simp
  have "same_memory (fetchExtract ev (reset sl st)) (fetchExtract (with_disk ev mk wr) (reset sl st))"
    using same_memory_refl by (rule fetchExtract_with_disk)
  then have "fst (index_docset (with_disk ev mk wr) (fetchExtract (with_disk ev mk wr) (reset sl st)))
           = fst (index_docset ev (fetchExtract ev (reset sl st)))"
    using cache_ok_fetched by (rule index_docset_with_disk)
  then have b: "fst (download_slug (with_disk ev mk wr) sl force st) = fst (download_slug ev sl force st)"
    by (simp add: download_slug_unfold)
  from w l r a e b show ?thesis unfolding with_disk_def by (intro conjI)
qed

theorem C10_write_failures_are_swallowed_witness:
  "documents javascript_state ''js/array.html'' = Some ''ARRAY''
   \<and> highlight_all demo_env (fix_elements demo_env (parseHtml demo_env ''ARRAY''))
       = Inr (fix_elements demo_env page_array)
   \<and> fst (processDocument refusing_env ''js/array.html'' javascript_state)
       = Inr (Some (fix_elements demo_env page_array))
   \<and> files (snd (processDocument refusing_env ''js/array.html'' javascript_state)) = files javascript_state
   \<and> console (snd (processDocument refusing_env ''js/array.html'' javascript_state))
       = [WriteFailed ''/store/javascript/js/array.html'']
   \<and> fst (download_slug refusing_env ''javascript'' True (new_downloader ''/store'')) = Inr ()
   \<and> console (snd (download_slug refusing_env ''javascript'' True (new_downloader ''/store'')))
       = [Extracted ''index.json'', Extracted ''meta.json'', Extracted ''js/array.html'',
          WriteFailed ''/store/javascript/meta.json'',
          WriteFailed ''/store/javascript/js/array.html'',
          Processed ''Array'' 0 3, Processed ''at'' 1 3, Processed ''gone'' 2 3,
          WriteFailed ''/store/javascript/items.json'']"
proof -
  let ?no = "\<lambda>p::string. False"
  have d: "documents javascript_state ''js/array.html'' = Some ''ARRAY''"
    by (simp add: javascript_state_def demo_state_def)
  have hl: "highlight_all demo_env (fix_elements demo_env (parseHtml demo_env ''ARRAY''))
              = Inr (fix_elements demo_env page_array)"
    by code_simp
  have n: "docset_fixes (docsetName javascript_state) (fix_elements demo_env page_array)
             = fix_elements demo_env page_array"
    by (simp add: docset_fixes_def javascript_state_def)
  have pj: "path_join (docsetPath javascript_state) ''js/array.html'' = ''/store/javascript/js/array.html''"
    by code_simp
  have c0: "console javascript_state = []"
    by (simp add: javascript_state_def demo_state_def new_downloader_def)
  note t = C10_write_failures_are_swallowed
             [where st = javascript_state and ev = demo_env and fileName = "''js/array.html''"
                and html = "''ARRAY''" and d = "fix_elements demo_env page_array"
                and mk = ?no and wr = ?no and sl = "''javascript''" and force = True]
  note u = C10_write_failures_are_swallowed
             [where st = javascript_state and ev = refusing_env and fname = "''js/array.html''"
                and body = "serializeHtml demo_env (fix_elements demo_env page_array)"]
  have ro: "\<not> writeOk refusing_env ''/store/javascript/js/array.html''"
    by (simp add: refusing_env_def)
  have p: "processDocument refusing_env ''js/array.html'' javascript_state
             = (Inr (Some (fix_elements demo_env page_array)),
                writeFile refusing_env ''js/array.html''
                  (serializeHtml demo_env (fix_elements demo_env page_array)) javascript_state)"
    using t d hl unfolding n refusing_env_def by blast
  have f: "files (snd (processDocument refusing_env ''js/array.html'' javascript_state)) = files javascript_state"
    and c: "console (snd (processDocument refusing_env ''js/array.html'' javascript_state))
       = [WriteFailed ''/store/javascript/js/array.html'']"
    unfolding p using u ro unfolding pj c0 by simp_all
  have k: "console (snd (download_slug refusing_env ''javascript'' True (new_downloader ''/store'')))
       = [Extracted ''index.json'', Extracted ''meta.json'', Extracted ''js/array.html'',
          WriteFailed ''/store/javascript/meta.json'',
          WriteFailed ''/store/javascript/js/array.html'',
          Processed ''Array'' 0 3, Processed ''at'' 1 3, Processed ''gone'' 2 3,
          WriteFailed ''/store/javascript/items.json'']"
    by code_simp
  have g: "fst (download_slug refusing_env ''javascript'' True (new_downloader ''/store'')) = Inr ()"
    by code_simp
  from d hl p f c g k show ?thesis by simp
qed

section \<open>The code blocks\<close>

lemma demo_env_sel:
  "parseHtml demo_env = demo_parse"
  "parseFragment demo_env = (\<lambda>s. [Text s])"
  "serializeHtml demo_env = (\<lambda>d. concat (map demo_print d))"
  "codeToHtml demo_env = demo_highlight"
  "fetch demo_env = demo_archive"
  "mkdirOk demo_env = (\<lambda>p. True)"
  "writeOk demo_env = (\<lambda>p. True)"
  by (simp_all add: demo_env_def)

lemma fix_elements_page_code: "fix_elements demo_env page_code = page_code"
  by (simp add: fix_elements_def page_code_def restructure_tables_def)

lemma highlight_page_code: "highlight_all demo_env page_code = Inl HighlightError"
  by (simp add: page_code_def demo_env_sel demo_highlight_def get_attr_def)

lemma highlight_guarded_failing:
  "codeToHtml ev (text_content cs) (get_attr ''data-language'' a) = None \<Longrightarrow>
     highlight_guarded ev (Element ''pre'' a cs) = Element ''pre'' a (map (highlight_guarded ev) cs)"
  by simp

lemma highlight_guarded_no_highlighter:
  "(\<And>code lang. codeToHtml ev code lang = None) \<Longrightarrow> highlight_guarded ev n = n"
  by (induction ev n rule: highlight_guarded.induct) (simp_all add: map_idI)

lemma highlight_succeeds:
  "(\<forall>code lang. codeToHtml ev code lang \<noteq> None) \<Longrightarrow> \<exists>n'. highlight ev n = Inr n'"
  "(\<forall>code lang. codeToHtml ev code lang \<noteq> None) \<Longrightarrow> \<exists>ns'. highlight_all ev ns = Inr ns'"
proof (induction ev n and ev ns rule: highlight_highlight_all.induct)
  case (1 ev t a cs)
  obtain html where h: "codeToHtml ev (text_content cs) (get_attr ''data-language'' a) = Some html"
    using 1(3) by (cases "codeToHtml ev (text_content cs) (get_attr ''data-language'' a)") blast+
  show ?case
  proof (cases "t = ''pre''")
    case True
    from 1(1) [OF True h 1(3)] obtain cs' where "highlight_all ev cs = Inr cs'" ..
    then show ?thesis using True h by simp
  next
    case False
    from 1(2) [OF False 1(3)] obtain cs' where "highlight_all ev cs = Inr cs'" ..
    then show ?thesis using False by simp
  qed
next
  case (5 ev n ns)
  from 5(1) [OF 5(3)] obtain n' where n: "highlight ev n = Inr n'" ..
  from 5(2) [OF n 5(3)] obtain ns' where "highlight_all ev ns = Inr ns'" ..
  then show ?case using n by simp
qed simp_all

text \<open>
  Claim C6.  A failure of the highlighter on one code block should be swallowed,
  the block keeping its text and the document being transformed, persisted and
  returned all the same.  In \<^verbatim>\<open>src/downloader.ts\<close> the call is not guarded: on the
  page \<^verbatim>\<open>js/old.html\<close> the failure leaves \<^verbatim>\<open>_processDocument\<close>, no document is
  returned and nothing is written.  The loop of the copy of the class in
  \<^verbatim>\<open>src/unnamed/part_001\<close> has the guard and leaves the page with its block
  untouched (in general: lemmas \<open>highlight_guarded_failing\<close> and
  \<open>highlight_guarded_no_highlighter\<close>).
\<close>

theorem C6_highlighter_failure_propagates:
  "processDocument demo_env ''js/old.html'' cobol_state = (Inl HighlightError, cobol_state)
   \<and> map (highlight_guarded demo_env) page_code = page_code"
proof -
  have "documents cobol_state ''js/old.html'' = Some ''CODE''"
    by (simp add: cobol_state_def new_downloader_def)
  moreover have "parseHtml demo_env ''CODE'' = page_code"
    by (simp add: demo_env_sel demo_parse_def)
  ultimately have "processDocument demo_env ''js/old.html'' cobol_state
                     = (Inl HighlightError, cobol_state)"
    by (simp add: processDocument_def fix_elements_page_code highlight_page_code)
  moreover have "map (highlight_guarded demo_env) page_code = page_code"
    by (simp add: page_code_def demo_env_sel demo_highlight_def get_attr_def)
  ultimately show ?thesis by (rule conjI)
qed

section \<open>One item for every entry\<close>

lemma processEntries_items:
  "processEntries ev es i n st = (Inr items, st') \<Longrightarrow>
     map path items = map entry_file es
     \<and> map anchor items = map (\<lambda>e. snd (split_path (e_path e))) es
     \<and> map label items = map (\<lambda>e. categorize (e_type e) @ '' '' @ e_name e) es"
proof (induction es arbitrary: i st items st')
  case Nil
  then show ?case by simp
next
  case (Cons e es)
  obtain r s1 where a: "processEntry ev e st = (r, s1)" by (cases "processEntry ev e st")
  let ?s = "s1\<lparr>console := console s1 @ [Processed (e_name e) i n]\<rparr>"
  obtain q t where b: "processEntries ev es (Suc i) n ?s = (q, t)"
    by (cases "processEntries ev es (Suc i) n ?s")
  from Cons.prems obtain item rest where r: "r = Inr item" and q: "q = Inr rest"
    and i: "items = item # rest"
    by (cases r; cases q) (simp_all add: a b)
  have "path item = entry_file e \<and> anchor item = snd (split_path (e_path e))
        \<and> label item = categorize (e_type e) @ '' '' @ e_name e"
    using a [unfolded processEntry_unfold] r
    by (auto split: prod.splits sum.splits)
  moreover note Cons.IH [OF b [unfolded q]]
  ultimately show ?case by (simp add: i)
qed

lemma processEntry_succeeds:
  assumes "cache_ok st" and "\<forall>code lang. codeToHtml ev code lang \<noteq> None"
  shows "\<exists>item st'. processEntry ev e st = (Inr item, st')"
proof -
  have "\<exists>d st'. getDocument ev (entry_file e) st = (Inr d, st')"
  proof (cases "lru_has (entry_file e) (parsedDocuments st)")
    case True
    then show ?thesis by (simp add: getDocument_hit)
  next
    case False
    have np: "entry_file e \<notin> processedDocuments st" using assms(1) by (simp add: cache_ok_def)
    show ?thesis
    proof (cases "documents st (entry_file e)")
      case None
      then show ?thesis
        unfolding getDocument_miss [OF False np] processDocument_def by simp
    next
      case (Some html)
      from highlight_succeeds(2) [OF assms(2)]
      obtain d where "highlight_all ev (fix_elements ev (parseHtml ev html)) = Inr d" by blast
      then show ?thesis
        unfolding getDocument_miss [OF False np] processDocument_def by (simp add: Some Let_def)
    qed
  qed
  then show ?thesis unfolding processEntry_unfold by auto
qed

lemma processEntries_succeeds:
  assumes "cache_ok st" and "\<forall>code lang. codeToHtml ev code lang \<noteq> None"
  shows "\<exists>items st'. processEntries ev es i n st = (Inr items, st')"
  using assms(1)
proof (induction es arbitrary: i st)
  case Nil
  then show ?case by simp
next
  case (Cons e es)
  from processEntry_succeeds [OF Cons.prems assms(2)]
  obtain item s1 where a: "processEntry ev e st = (Inr item, s1)" by blast
  have "cache_ok s1" using processEntry_cache_ok [OF Cons.prems a] by simp
  then have "cache_ok (s1\<lparr>console := console s1 @ [Processed (e_name e) i n]\<rparr>)"
    by (simp add: cache_ok_def)
  from Cons.IH [OF this] obtain items t where
    "processEntries ev es (Suc i) n (s1\<lparr>console := console s1 @ [Processed (e_name e) i n]\<rparr>)
       = (Inr items, t)" by blast
  then show ?case by (simp add: a)
qed

text \<open>
  When the highlighter accepts every block, a download of a well-formed archive
  ends with the write of \<^verbatim>\<open>items.json\<close>, and the list it writes has one item for
  every entry of the manifest, in the order of the manifest.
\<close>

theorem download_emits_items:
  assumes run: "force \<or> \<not> existsSync (reset sl st0) (docsetPath (reset sl st0))"
    and idx: "documents (fetchExtract ev (reset sl st0)) ''index.json'' = Some indexFile"
    and met: "documents (fetchExtract ev (reset sl st0)) ''meta.json'' = Some metaFile"
    and pm: "parseMeta ev metaFile = Some meta"
    and pi: "parseIndex ev indexFile = Some entries"
    and hl: "\<forall>code lang. codeToHtml ev code lang \<noteq> None"
  shows "\<exists>items st5.
           download_slug ev sl force st0
             = (Inr (), writeFile ev ''items.json'' (stringifyItems ev items) st5)
           \<and> length items = length entries
           \<and> map path items = map entry_file entries
           \<and> map label items = map (\<lambda>e. categorize (e_type e) @ '' '' @ e_name e) entries"
proof -
  let ?st2 = "fetchExtract ev (reset sl st0)"
  let ?st4 = "(writeFile ev ''meta.json'' (stringifyMeta ev meta) ?st2)\<lparr>docsetName := m_name meta\<rparr>"
  have "cache_ok ?st4" using cache_ok_fetched [of ev sl st0] by (simp add: cache_ok_def)
  from processEntries_succeeds [OF this hl]
  obtain items st5 where p: "processEntries ev entries 0 (length entries) ?st4 = (Inr items, st5)"
    by blast
  note i = processEntries_items [OF p]
  have "length items = length entries" using i by (metis length_map)
  moreover have "download_slug ev sl force st0
             = (Inr (), writeFile ev ''items.json'' (stringifyItems ev items) st5)"
    using run by (auto simp: download_slug_unfold index_docset_def idx met pm pi p Let_def)
  ultimately show ?thesis using i by blast
qed

theorem download_emits_items_witness:
  "\<exists>items st5.
     download_slug plain_env ''javascript'' True (new_downloader ''/store'')
       = (Inr (), writeFile plain_env ''items.json'' (stringifyItems plain_env items) st5)
     \<and> length items = 3
     \<and> map path items = [''js/array.html'', ''js/array.html.html'', ''js/gone.html'']"
proof -
  let ?st2 = "fetchExtract plain_env (reset ''javascript'' (new_downloader ''/store''))"
  have idx: "documents ?st2 ''index.json'' = Some ''INDEX''"
    and met: "documents ?st2 ''meta.json'' = Some ''META''"
    unfolding reset_def by code_simp+
  have pm: "parseMeta plain_env ''META'' = Some demo_meta"
    and pi: "parseIndex plain_env ''INDEX'' = Some [entry_Array, entry_at, entry_gone]"
    by (simp_all add: plain_env_def demo_env_def)
  have hl: "\<forall>code lang. codeToHtml plain_env code lang \<noteq> None"
    by (simp add: plain_env_def)
  have f: "map entry_file [entry_Array, entry_at, entry_gone]
             = [''js/array.html'', ''js/array.html.html'', ''js/gone.html'']"
    by (simp add: entry_file_def entry_Array_def entry_at_def entry_gone_def
          split_path_array split_path_array_at split_path_gone)
  from download_emits_items [of True, OF _ idx met pm pi hl]
  show ?thesis unfolding f by auto
qed

text \<open>
  Claim C2.  Every well-formed archive should give one item for every entry of its
  index manifest.  The archive of the slug \<^verbatim>\<open>cobol\<close> is well-formed: both manifests
  are there and parse, the index has two entries.  Its first entry refers to the
  page whose code block the highlighter rejects; the failure leaves the loop of
  \<^verbatim>\<open>_download\<close>, no item is emitted and \<^verbatim>\<open>items.json\<close> is never written.  This is
  the defect of claim C6 seen from the loop.
\<close>

theorem C2_download_aborts_on_highlighter_failure:
  "fst (download_slug demo_env ''cobol'' False (new_downloader ''/store'')) = Inl HighlightError
   \<and> files (snd (download_slug demo_env ''cobol'' False (new_downloader ''/store'')))
        ''/store/cobol/items.json'' = None
   \<and> parseIndex demo_env ''OLDINDEX'' = Some [entry_old, entry_gone]
   \<and> parseMeta demo_env ''OLDMETA'' = Some cobol_meta"
  by code_simp

section \<open>The transformer is a function of the page, the highlighter and the docset\<close>

text \<open>
  Claim C8.  Transforming the same raw document twice, with the same highlighter
  and the same docset name, gives the same output.  The two runs may start from
  downloaders that differ in everything else (slug, output directory, both tiers of
  the cache, the disk, the console): the outcome, that is the parsed document or
  the failure, is the same, and the text handed to the disk in each run is the
  serialisation of that same document.
\<close>

theorem C8_transformation_is_deterministic:
  assumes "documents st1 fileName = documents st2 fileName"
    and "docsetName st1 = docsetName st2"
  shows "fst (processDocument ev fileName st1) = fst (processDocument ev fileName st2)
       \<and> (\<forall>d. fst (processDocument ev fileName st1) = Inr (Some d) \<longrightarrow>
              snd (processDocument ev fileName st1) = writeFile ev fileName (serializeHtml ev d) st1
            \<and> snd (processDocument ev fileName st2) = writeFile ev fileName (serializeHtml ev d) st2)"
proof (cases "documents st2 fileName")
  case None
  then show ?thesis using assms by (simp add: processDocument_def)
next
  case (Some html)
  then have h: "documents st1 fileName = Some html" using assms(1) by simp
  show ?thesis
  proof (cases "highlight_all ev (fix_elements ev (parseHtml ev html))")
    case (Inl e)
    then show ?thesis by (simp add: processDocument_def h Some)
  next
    case (Inr d)
    then show ?thesis by (simp add: processDocument_def h Some assms(2) Let_def)
  qed
qed

theorem C8_transformation_is_deterministic_witness:
  "documents demo_state ''js/array.html'' = documents other_state ''js/array.html''
   \<and> docsetName demo_state = docsetName other_state
   \<and> fst (processDocument demo_env ''js/array.html'' demo_state)
       = fst (processDocument demo_env ''js/array.html'' other_state)
   \<and> fst (processDocument demo_env ''js/array.html'' demo_state) \<noteq> Inr None"
proof -
  have a: "documents demo_state ''js/array.html'' = documents other_state ''js/array.html''"
    and b: "docsetName demo_state = docsetName other_state"
    by (simp_all add: other_state_def)
  have c: "fst (processDocument demo_env ''js/array.html'' demo_state) \<noteq> Inr None"
    by (simp add: processDocument_def demo_state_def new_downloader_def Let_def split: sum.splits)
  from C8_transformation_is_deterministic [OF a b, of demo_env] a b c show ?thesis by blast
qed

section \<open>The tiers of the cache\<close>

lemma lru_has_map_of: "lru_has k l \<longleftrightarrow> map_of l k \<noteq> None"
  by (simp add: lru_has_def map_of_eq_None_iff)

lemma map_of_lru_touch: "map_of (lru_touch k v l) k = Some v"
proof -
  have "map_of (filter (\<lambda>e. fst e \<noteq> k) l) k = None" by (induction l) auto
  then show ?thesis by (simp add: lru_touch_def map_add_def)
qed

lemma lru_set_new:
  assumes "\<not> lru_has k l"
  shows "lru_set n k v l = (if n \<le> length l then tl (l @ [(k, v)]) else l @ [(k, v)])"
  using assms by (auto simp: lru_set_def Let_def)

lemma map_of_lru_set:
  assumes "0 < n"
  shows "map_of (lru_set n k v l) k = Some v"
proof (cases "lru_has k l")
  case True
  then show ?thesis by (simp add: lru_set_def map_of_lru_touch)
next
  case False
  then have n: "map_of l k = None" by (simp add: lru_has_map_of)
  show ?thesis
  proof (cases l)
    case Nil
    then show ?thesis using assms False by (simp add: lru_set_new)
  next
    case (Cons x xs)
    then have "map_of xs k = None" using n by (cases x) (simp split: if_splits)
    moreover have "fst x \<noteq> k" using False Cons by (auto simp: lru_has_def)
    ultimately show ?thesis using False Cons by (simp add: lru_set_new map_add_def)
  qed
qed

lemma lru_set_bounded:
  assumes "length l \<le> n" and "0 < n"
  shows "length (lru_set n k v l) \<le> n"
proof (cases "lru_has k l")
  case True
  then obtain e where "e \<in> set l" "\<not> fst e \<noteq> k" by (auto simp: lru_has_def)
  then have "length (filter (\<lambda>e. fst e \<noteq> k) l) < length l" by (rule length_filter_less)
  then show ?thesis using True assms by (simp add: lru_set_def lru_touch_def)
next
  case False
  then show ?thesis using assms by (simp add: lru_set_new)
qed

lemma lru_set_evicts_oldest:
  "\<not> lru_has k l \<Longrightarrow> length l = n \<Longrightarrow> 0 < n \<Longrightarrow> lru_set n k v l = tl l @ [(k, v)]"
  by (cases l) (simp_all add: lru_set_new)

lemma getDocument_disk:
  "\<not> lru_has f (parsedDocuments st) \<Longrightarrow> f \<in> processedDocuments st \<Longrightarrow>
     getDocument ev f st =
       (case files st f of
          None \<Rightarrow> (Inl (ReadError f), st)
        | Some html \<Rightarrow>
            (Inr (Some (parseHtml ev html)),
             st\<lparr>parsedDocuments := lru_set capacity f (parseHtml ev html) (parsedDocuments st)\<rparr>))"
  by (simp add: getDocument_def split: option.splits)

lemma getDocument_hit_value:
  assumes "lru_has f (parsedDocuments st)"
  shows "\<exists>d. map_of (parsedDocuments st) f = Some d
           \<and> getDocument ev f st
               = (Inr (Some d), st\<lparr>parsedDocuments := lru_touch f d (parsedDocuments st)\<rparr>)"
proof -
  obtain d where d: "map_of (parsedDocuments st) f = Some d"
    using assms by (auto simp: lru_has_map_of)
  then show ?thesis by (simp add: getDocument_hit [OF assms] lru_get_def)
qed

lemma getDocument_caches:
  assumes "getDocument ev f st = (Inr (Some d), st1)"
  shows "map_of (parsedDocuments st1) f = Some d"
proof (cases "lru_has f (parsedDocuments st)")
  case True
  from getDocument_hit_value [OF True, of ev] assms show ?thesis
    by (auto simp: map_of_lru_touch)
next
  case False
  have c: "0 < capacity" by (simp add: capacity_def)
  show ?thesis
  proof (cases "f \<in> processedDocuments st")
    case True
    then show ?thesis using assms unfolding getDocument_disk [OF False True]
      by (auto simp: map_of_lru_set [OF c] split: option.splits)
  next
    case np: False
    obtain r s where p: "processDocument ev f st = (r, s)" by (cases "processDocument ev f st")
    show ?thesis using assms unfolding getDocument_miss [OF False np] p
      by (auto simp: map_of_lru_set [OF c] split: sum.splits option.splits)
  qed
qed

lemma getDocument_twice:
  assumes "getDocument ev f st = (Inr (Some d), st1)"
  shows "getDocument ev f st1
           = (Inr (Some d), st1\<lparr>parsedDocuments := lru_touch f d (parsedDocuments st1)\<rparr>)"
proof -
  have m: "map_of (parsedDocuments st1) f = Some d" using assms by (rule getDocument_caches)
  then have "lru_has f (parsedDocuments st1)" by (simp add: lru_has_map_of)
  from getDocument_hit_value [OF this, of ev] m show ?thesis by simp
qed

lemma getDocument_evicts:
  assumes "getDocument ev f st = (Inr (Some d), st1)"
    and "\<not> lru_has f (parsedDocuments st)" and "length (parsedDocuments st) = capacity"
  shows "parsedDocuments st1 = tl (parsedDocuments st) @ [(f, d)]"
proof -
  have c: "0 < capacity" by (simp add: capacity_def)
  note e = lru_set_evicts_oldest [OF assms(2) assms(3) c]
  show ?thesis
  proof (cases "f \<in> processedDocuments st")
    case True
    then show ?thesis using assms(1) unfolding getDocument_disk [OF assms(2) True]
      by (auto simp: e split: option.splits)
  next
    case np: False
    obtain r s where p: "processDocument ev f st = (r, s)" by (cases "processDocument ev f st")
    have "parsedDocuments s = parsedDocuments st" using processDocument_mem [OF p] by simp
    then show ?thesis using assms(1) unfolding getDocument_miss [OF assms(2) np] p
      by (auto simp: e split: sum.splits option.splits)
  qed
qed

lemma lru_touch_bounded:
  assumes "lru_has k l"
  shows "length (lru_touch k v l) \<le> length l"
proof -
  obtain e where "e \<in> set l" "\<not> fst e \<noteq> k" using assms by (auto simp: lru_has_def)
  then have "length (filter (\<lambda>e. fst e \<noteq> k) l) < length l" by (rule length_filter_less)
  then show ?thesis by (simp add: lru_touch_def)
qed

lemma getDocument_bounded:
  assumes "length (parsedDocuments st) \<le> capacity"
  shows "length (parsedDocuments (snd (getDocument ev f st))) \<le> capacity"
proof (cases "lru_has f (parsedDocuments st)")
  case True
  from getDocument_hit_value [OF True, of ev] obtain d where
    "getDocument ev f st = (Inr (Some d), st\<lparr>parsedDocuments := lru_touch f d (parsedDocuments st)\<rparr>)"
    by blast
  then show ?thesis using lru_touch_bounded [OF True, of d] assms by simp
next
  case False
  have c: "0 < capacity" by (simp add: capacity_def)
  show ?thesis
  proof (cases "f \<in> processedDocuments st")
    case True
    show ?thesis unfolding getDocument_disk [OF False True]
      using assms by (simp add: lru_set_bounded [OF _ c] split: option.splits)
  next
    case np: False
    obtain r s where p: "processDocument ev f st = (r, s)" by (cases "processDocument ev f st")
    have "parsedDocuments s = parsedDocuments st" using processDocument_mem [OF p] by simp
    then show ?thesis unfolding getDocument_miss [OF False np] p
      using assms by (simp add: lru_set_bounded [OF _ c] split: sum.splits option.splits)
  qed
qed

text \<open>
  The tiers of \<^verbatim>\<open>_getDocument\<close>.  The cache holds at most 64 parsed documents.
  The in-memory map is asked first: a path found there is answered from it, with
  no read and no transformation, whatever the other tiers hold.  Else a path of the
  processed set is read from the disk and parsed, not transformed.  Else the
  document is transformed.  A document that was returned is in the map afterwards,
  so a request for the same path that follows at once is answered from memory.
  When the map is full and a new path comes in, the entry at the old end of the
  map goes: the one whose last \<^verbatim>\<open>get\<close> or \<^verbatim>\<open>set\<close> is the longest ago.
\<close>

theorem cache_tiers_and_eviction:
  "capacity = 64
   \<and> (lru_has f (parsedDocuments st) \<longrightarrow>
        (\<exists>d. map_of (parsedDocuments st) f = Some d
           \<and> getDocument ev f st
               = (Inr (Some d), st\<lparr>parsedDocuments := lru_touch f d (parsedDocuments st)\<rparr>)))
   \<and> (\<not> lru_has f (parsedDocuments st) \<and> f \<in> processedDocuments st \<longrightarrow>
        getDocument ev f st =
          (case files st f of
             None \<Rightarrow> (Inl (ReadError f), st)
           | Some html \<Rightarrow>
               (Inr (Some (parseHtml ev html)),
                st\<lparr>parsedDocuments := lru_set capacity f (parseHtml ev html) (parsedDocuments st)\<rparr>)))
   \<and> (\<not> lru_has f (parsedDocuments st) \<and> f \<notin> processedDocuments st \<longrightarrow>
        getDocument ev f st =
          (case processDocument ev f st of
             (Inl e, st') \<Rightarrow> (Inl e, st')
           | (Inr None, st') \<Rightarrow> (Inr None, st')
           | (Inr (Some d), st') \<Rightarrow>
               (Inr (Some d),
                st'\<lparr>parsedDocuments := lru_set capacity f d (parsedDocuments st')\<rparr>)))
   \<and> (getDocument ev f st = (Inr (Some d), st1) \<longrightarrow>
        getDocument ev f st1
          = (Inr (Some d), st1\<lparr>parsedDocuments := lru_touch f d (parsedDocuments st1)\<rparr>)
        \<and> (\<not> lru_has f (parsedDocuments st) \<and> length (parsedDocuments st) = capacity \<longrightarrow>
             parsedDocuments st1 = tl (parsedDocuments st) @ [(f, d)]))
   \<and> (length (parsedDocuments st) \<le> capacity \<longrightarrow>
        length (parsedDocuments (snd (getDocument ev f st))) \<le> capacity)"
  using getDocument_hit_value [of f st ev] getDocument_disk [of f st ev]
    getDocument_miss [of f st ev] getDocument_twice [of ev f st d st1]
    getDocument_evicts [of ev f st d st1] getDocument_bounded [of st ev f]
  by (simp add: capacity_def)

theorem cache_tiers_and_eviction_witness:
  "\<exists>d st1. getDocument demo_env ''js/array.html'' full_state = (Inr (Some d), st1)
     \<and> \<not> lru_has ''js/array.html'' (parsedDocuments full_state)
     \<and> length (parsedDocuments full_state) = capacity
     \<and> hd (parsedDocuments full_state) = (''x'', [])
     \<and> map fst (parsedDocuments st1) = map fst (tl (parsedDocuments full_state)) @ [''js/array.html'']
     \<and> getDocument demo_env ''js/array.html'' st1
         = (Inr (Some d), st1\<lparr>parsedDocuments := lru_touch ''js/array.html'' d (parsedDocuments st1)\<rparr>)"
proof -
  have a: "\<not> lru_has ''js/array.html'' (parsedDocuments full_state)" by code_simp
  have b: "length (parsedDocuments full_state) = capacity" by code_simp
  have h: "hd (parsedDocuments full_state) = (''x'', [])" by code_simp
  have "case getDocument demo_env ''js/array.html'' full_state of
          (Inr (Some d), st1) \<Rightarrow> True | _ \<Rightarrow> False" by code_simp
  then obtain d st1 where g: "getDocument demo_env ''js/array.html'' full_state = (Inr (Some d), st1)"
    by (auto split: prod.splits sum.splits option.splits)
  note t = cache_tiers_and_eviction [of "''js/array.html''" full_state demo_env d st1]
  from t g a b have "parsedDocuments st1 = tl (parsedDocuments full_state) @ [(''js/array.html'', d)]"
    by blast
  moreover from t g have "getDocument demo_env ''js/array.html'' st1
         = (Inr (Some d), st1\<lparr>parsedDocuments := lru_touch ''js/array.html'' d (parsedDocuments st1)\<rparr>)"
    by blast
  ultimately show ?thesis using g a b h by (auto simp: map_tl)
qed

subsection \<open>A path that comes back after the others\<close>

lemma getDocument_transforms:
  assumes "\<not> lru_has f (parsedDocuments st)" and "f \<notin> processedDocuments st"
    and "transformed ev st f = Some d"
  shows "getDocument ev f st =
           (Inr (Some d),
            (writeFile ev f (serializeHtml ev d) st)
              \<lparr>parsedDocuments := lru_set capacity f d (parsedDocuments st)\<rparr>)"
  using assms(3) unfolding getDocument_miss [OF assms(1,2)] processDocument_def transformed_def
  by (auto simp: Let_def split: option.splits sum.splits)

lemma transformed_writeFile [simp]:
  "transformed ev (writeFile ev' f t st) g = transformed ev st g"
  by (simp add: transformed_def cong: option.case_cong sum.case_cong)

lemma transformed_parsed [simp]:
  "transformed ev (st\<lparr>parsedDocuments := l\<rparr>) g = transformed ev st g"
  by (simp add: transformed_def cong: option.case_cong sum.case_cong)

lemma lru_set_new_keys:
  assumes "k \<notin> set (map fst l)" and "length l \<le> n" and "0 < n"
  shows "map fst (lru_set n k v l) = drop (length (map fst l @ [k]) - n) (map fst l @ [k])"
proof -
  have "\<not> lru_has k l" using assms(1) by (simp add: lru_has_def)
  then show ?thesis using assms(2,3) by (cases l) (auto simp: lru_set_new drop_Cons')
qed

lemma lru_set_new_entries:
  assumes "\<not> lru_has k l"
  shows "set (lru_set n k v l) \<subseteq> insert (k, v) (set l)"
proof -
  have "set (tl (l @ [(k, v)])) \<subseteq> set (l @ [(k, v)])" by (cases l) auto
  then show ?thesis using assms by (auto simp: lru_set_new)
qed

lemma requests_keys:
  assumes "processedDocuments st = {}"
    and "distinct (map fst (parsedDocuments st) @ fs)"
    and "length (parsedDocuments st) \<le> capacity"
    and "\<forall>g \<in> set fs. transformed ev st g \<noteq> None"
    and "\<forall>e \<in> set (parsedDocuments st). transformed ev st (fst e) = Some (snd e)"
  shows "map fst (parsedDocuments (requests ev fs st))
           = drop (length (map fst (parsedDocuments st) @ fs) - capacity)
               (map fst (parsedDocuments st) @ fs)
       \<and> processedDocuments (requests ev fs st) = {}
       \<and> (\<forall>g. transformed ev (requests ev fs st) g = transformed ev st g)
       \<and> (\<forall>e \<in> set (parsedDocuments (requests ev fs st)). transformed ev st (fst e) = Some (snd e))"
  using assms
proof (induction fs arbitrary: st)
  case Nil
  then show ?case by (simp add: requests_def)
next
  case (Cons f fs)
  let ?K = "map fst (parsedDocuments st)"
  obtain d where d: "transformed ev st f = Some d" using Cons.prems(4) by auto
  have nk: "f \<notin> set ?K" using Cons.prems(2) by auto
  then have nh: "\<not> lru_has f (parsedDocuments st)" by (simp add: lru_has_def)
  have np: "f \<notin> processedDocuments st" using Cons.prems(1) by simp
  let ?s = "(writeFile ev f (serializeHtml ev d) st)
              \<lparr>parsedDocuments := lru_set capacity f d (parsedDocuments st)\<rparr>"
  have g: "getDocument ev f st = (Inr (Some d), ?s)"
    using nh np d by (rule getDocument_transforms)
  have r: "requests ev (f # fs) st = requests ev fs ?s" by (simp add: requests_def g)
  let ?m = "length (?K @ [f]) - capacity"
  have k: "map fst (parsedDocuments ?s) = drop ?m (?K @ [f])"
    using lru_set_new_keys [OF nk Cons.prems(3), of d] by (simp add: capacity_def)
  have m: "?m \<le> 1" using Cons.prems(3) by simp
  have 1: "processedDocuments ?s = {}" using Cons.prems(1) by simp
  have "distinct (drop ?m (?K @ [f]) @ fs)"
    using Cons.prems(2) m by (cases "?m = 0"; cases "parsedDocuments st") (auto simp: drop_Cons')
  then have 2: "distinct (map fst (parsedDocuments ?s) @ fs)" unfolding k .
  have 3: "length (parsedDocuments ?s) \<le> capacity"
    using arg_cong [OF k, of length] by simp
  have 4: "\<forall>g \<in> set fs. transformed ev ?s g \<noteq> None" using Cons.prems(4) by simp
  have 5: "\<forall>e \<in> set (parsedDocuments ?s). transformed ev ?s (fst e) = Some (snd e)"
  proof
    fix e assume "e \<in> set (parsedDocuments ?s)"
    then have "e \<in> insert (f, d) (set (parsedDocuments st))"
      using lru_set_new_entries [OF nh, of capacity d] by auto
    then show "transformed ev ?s (fst e) = Some (snd e)"
      using d Cons.prems(5) by auto
  qed
  note ih = Cons.IH [OF 1 2 3 4 5]
  have e: "drop (length (drop ?m (?K @ [f]) @ fs) - capacity) (drop ?m (?K @ [f]) @ fs)
             = drop (length (?K @ f # fs) - capacity) (?K @ f # fs)"
  proof (cases "?m = 0")
    case True
    then show ?thesis by simp
  next
    case False
    then have "?m = 1" using m by simp
    moreover from this have "length ?K = capacity" using Cons.prems(3) by simp
    ultimately show ?thesis
      using Cons.prems(3) by (cases "parsedDocuments st") (auto simp: drop_Cons' capacity_def)
  qed
  show ?case unfolding r using ih unfolding k e by simp
qed

lemma getDocument_docsetPath: "docsetPath (snd (getDocument ev f st)) = docsetPath st"
proof (cases "lru_has f (parsedDocuments st)")
  case True
  then show ?thesis by (simp add: getDocument_hit)
next
  case False
  show ?thesis
  proof (cases "f \<in> processedDocuments st")
    case True
    then show ?thesis using False by (simp add: getDocument_disk split: option.splits)
  next
    case np: False
    show ?thesis unfolding getDocument_miss [OF False np] processDocument_def
      by (simp add: Let_def split: option.splits sum.splits)
  qed
qed

lemma requests_docsetPath: "docsetPath (requests ev fs st) = docsetPath st"
  unfolding requests_def by (induction fs arbitrary: st) (simp_all add: getDocument_docsetPath)

text \<open>
  Claim C7.  Requesting the same path twice within one run should transform it at
  most once.  Nothing in the class ever adds a path to \<^verbatim>\<open>_processedDocuments\<close>,
  so the second tier is never taken and the in-memory map alone remembers what was
  transformed.  Take a download whose caches are empty, a page \<open>f\<close> and other
  pages \<open>fs\<close>, all different and all transformable.  The first request for \<open>f\<close>
  transforms it and writes it.  After the requests for \<open>fs\<close>, a second request for
  \<open>f\<close> is answered from memory when \<open>fs\<close> are fewer than 64; when they are 64 or
  more, \<open>f\<close> has been evicted, and the second request transforms the page and
  writes it a second time.
\<close>

theorem C7_evicted_path_is_transformed_again:
  assumes "processedDocuments st = {}" and "parsedDocuments st = []"
    and "distinct (f # fs)"
    and "\<forall>g \<in> set (f # fs). transformed ev st g \<noteq> None"
  shows "\<exists>d. transformed ev st f = Some d
           \<and> getDocument ev f st
               = (Inr (Some d),
                  (writeFile ev f (serializeHtml ev d) st)\<lparr>parsedDocuments := [(f, d)]\<rparr>)
           \<and> (length fs < capacity \<longrightarrow>
                getDocument ev f (requests ev (f # fs) st)
                  = (Inr (Some d),
                     (requests ev (f # fs) st)
                       \<lparr>parsedDocuments :=
                          lru_touch f d (parsedDocuments (requests ev (f # fs) st))\<rparr>))
           \<and> (capacity \<le> length fs \<longrightarrow>
                getDocument ev f (requests ev (f # fs) st)
                  = (Inr (Some d),
                     (writeFile ev f (serializeHtml ev d) (requests ev (f # fs) st))
                       \<lparr>parsedDocuments :=
                          lru_set capacity f d (parsedDocuments (requests ev (f # fs) st))\<rparr>))"
proof -
  let ?s = "requests ev (f # fs) st"
  obtain d where d: "transformed ev st f = Some d" using assms(4) by auto
  have nh: "\<not> lru_has f (parsedDocuments st)" by (simp add: assms(2) lru_has_def)
  have np: "f \<notin> processedDocuments st" by (simp add: assms(1))
  have first: "getDocument ev f st
               = (Inr (Some d),
                  (writeFile ev f (serializeHtml ev d) st)\<lparr>parsedDocuments := [(f, d)]\<rparr>)"
    unfolding getDocument_transforms [OF nh np d]
    by (simp add: assms(2) lru_set_def lru_has_def capacity_def)
  have "distinct (map fst (parsedDocuments st) @ f # fs)"
    and "length (parsedDocuments st) \<le> capacity"
    and "\<forall>e \<in> set (parsedDocuments st). transformed ev st (fst e) = Some (snd e)"
    using assms(2,3) by simp_all
  from requests_keys [OF assms(1) this(1,2) assms(4) this(3)]
  have k: "map fst (parsedDocuments ?s) = drop (length (f # fs) - capacity) (f # fs)"
    and p: "processedDocuments ?s = {}"
    and t: "transformed ev ?s f = Some d"
    and v: "\<forall>e \<in> set (parsedDocuments ?s). transformed ev st (fst e) = Some (snd e)"
    using d by (simp_all add: assms(2))
  have hit: "getDocument ev f ?s
               = (Inr (Some d), ?s\<lparr>parsedDocuments := lru_touch f d (parsedDocuments ?s)\<rparr>)"
    if "length fs < capacity"
  proof -
    have "map fst (parsedDocuments ?s) = f # fs" using k that by simp
    then have "lru_has f (parsedDocuments ?s)"
      unfolding lru_has_def by (metis list.set_intros(1) set_map)
    from getDocument_hit_value [OF this, of ev] obtain d' where
      m: "map_of (parsedDocuments ?s) f = Some d'"
      and g: "getDocument ev f ?s
                = (Inr (Some d'), ?s\<lparr>parsedDocuments := lru_touch f d' (parsedDocuments ?s)\<rparr>)"
      by blast
    from m have "(f, d') \<in> set (parsedDocuments ?s)" by (rule map_of_SomeD)
    with v d have "d' = d" by auto
    then show ?thesis using g by simp
  qed
  have miss: "getDocument ev f ?s
                = (Inr (Some d),
                   (writeFile ev f (serializeHtml ev d) ?s)
                     \<lparr>parsedDocuments := lru_set capacity f d (parsedDocuments ?s)\<rparr>)"
    if "capacity \<le> length fs"
  proof -
    have "drop (length (f # fs) - capacity) (f # fs) = drop (length fs - capacity) fs"
      using that by (simp add: drop_Cons' capacity_def)
    then have "set (map fst (parsedDocuments ?s)) \<subseteq> set fs"
      unfolding k by (simp add: set_drop_subset)
    then have "\<not> lru_has f (parsedDocuments ?s)"
      using assms(3) unfolding lru_has_def by auto
    moreover have "f \<notin> processedDocuments ?s" by (simp add: p)
    ultimately show ?thesis using t by (rule getDocument_transforms)
  qed
  from d first hit miss show ?thesis by blast
qed

theorem C7_evicted_path_is_transformed_again_witness:
  "processedDocuments pages_state = {} \<and> parsedDocuments pages_state = []
   \<and> distinct (''a.html'' # other_pages 64) \<and> length (other_pages 64) = capacity
   \<and> list_all (\<lambda>g. transformed refusing_env pages_state g \<noteq> None) (''a.html'' # other_pages 64)
   \<and> (\<exists>d. getDocument refusing_env ''a.html'' pages_state
               = (Inr (Some d),
                  (writeFile refusing_env ''a.html'' (serializeHtml refusing_env d) pages_state)
                    \<lparr>parsedDocuments := [(''a.html'', d)]\<rparr>)
          \<and> getDocument refusing_env ''a.html'' (requests refusing_env (''a.html'' # other_pages 63) pages_state)
               = (Inr (Some d),
                  (requests refusing_env (''a.html'' # other_pages 63) pages_state)
                    \<lparr>parsedDocuments :=
                       lru_touch ''a.html'' d
                         (parsedDocuments (requests refusing_env (''a.html'' # other_pages 63) pages_state))\<rparr>)
          \<and> getDocument refusing_env ''a.html'' (requests refusing_env (''a.html'' # other_pages 64) pages_state)
               = (Inr (Some d),
                  (writeFile refusing_env ''a.html'' (serializeHtml refusing_env d)
                     (requests refusing_env (''a.html'' # other_pages 64) pages_state))
                    \<lparr>parsedDocuments :=
                       lru_set capacity ''a.html'' d
                         (parsedDocuments (requests refusing_env (''a.html'' # other_pages 64) pages_state))\<rparr>))
   \<and> console (snd (getDocument refusing_env ''a.html''
                      (requests refusing_env (''a.html'' # other_pages 63) pages_state)))
       = console (requests refusing_env (''a.html'' # other_pages 63) pages_state)
   \<and> console (snd (getDocument refusing_env ''a.html''
                      (requests refusing_env (''a.html'' # other_pages 64) pages_state)))
       = console (requests refusing_env (''a.html'' # other_pages 64) pages_state)
           @ [WriteFailed ''/store/javascript/a.html'']"
proof -
  have 1: "processedDocuments pages_state = {}" and 2: "parsedDocuments pages_state = []"
    by (simp_all add: pages_state_def javascript_state_def demo_state_def new_downloader_def)
  have 3: "distinct (''a.html'' # other_pages 64)" by code_simp
  have l: "length (other_pages 64) = capacity" "length (other_pages 63) < capacity"
    by (simp_all add: other_pages_def capacity_def)
  have h: "case highlight_all refusing_env (fix_elements refusing_env (parseHtml refusing_env ''ARRAY'')) of
             Inl e \<Rightarrow> False | Inr d \<Rightarrow> True"
    by code_simp
  have 4: "\<forall>g \<in> set (''a.html'' # other_pages 64). transformed refusing_env pages_state g \<noteq> None"
    using h by (auto simp: transformed_def pages_state_def split: sum.splits)
  have s: "set (other_pages 63) \<subseteq> set (other_pages 64)"
    by (auto simp: other_pages_def)
  have d63: "distinct (''a.html'' # other_pages 63)" by code_simp
  have t63: "\<forall>g \<in> set (''a.html'' # other_pages 63). transformed refusing_env pages_state g \<noteq> None"
    using 4 s by auto
  from C7_evicted_path_is_transformed_again [OF 1 2 3 4] l(1)
  obtain d where d: "transformed refusing_env pages_state ''a.html'' = Some d"
    and a: "getDocument refusing_env ''a.html'' pages_state
               = (Inr (Some d),
                  (writeFile refusing_env ''a.html'' (serializeHtml refusing_env d) pages_state)
                    \<lparr>parsedDocuments := [(''a.html'', d)]\<rparr>)"
    and b: "getDocument refusing_env ''a.html'' (requests refusing_env (''a.html'' # other_pages 64) pages_state)
               = (Inr (Some d),
                  (writeFile refusing_env ''a.html'' (serializeHtml refusing_env d)
                     (requests refusing_env (''a.html'' # other_pages 64) pages_state))
                    \<lparr>parsedDocuments :=
                       lru_set capacity ''a.html'' d
                         (parsedDocuments (requests refusing_env (''a.html'' # other_pages 64) pages_state))\<rparr>)"
    by auto
  from C7_evicted_path_is_transformed_again [OF 1 2 d63 t63] l(2) d
  have c: "getDocument refusing_env ''a.html'' (requests refusing_env (''a.html'' # other_pages 63) pages_state)
               = (Inr (Some d),
                  (requests refusing_env (''a.html'' # other_pages 63) pages_state)
                    \<lparr>parsedDocuments :=
                       lru_touch ''a.html'' d
                         (parsedDocuments (requests refusing_env (''a.html'' # other_pages 63) pages_state))\<rparr>)"
    by auto
  have la: "list_all (\<lambda>g. transformed refusing_env pages_state g \<noteq> None) (''a.html'' # other_pages 64)"
    using 4 unfolding list_all_iff .
  have dp: "docsetPath (requests refusing_env (''a.html'' # other_pages 64) pages_state)
              = ''/store/javascript''"
    by (simp add: requests_docsetPath pages_state_def javascript_state_def)
  have pj: "path_join ''/store/javascript'' ''a.html'' = ''/store/javascript/a.html''"
    by code_simp
  have c63: "console (snd (getDocument refusing_env ''a.html''
                      (requests refusing_env (''a.html'' # other_pages 63) pages_state)))
       = console (requests refusing_env (''a.html'' # other_pages 63) pages_state)"
    unfolding c by simp
  have c64: "console (snd (getDocument refusing_env ''a.html''
                      (requests refusing_env (''a.html'' # other_pages 64) pages_state)))
       = console (requests refusing_env (''a.html'' # other_pages 64) pages_state)
           @ [WriteFailed ''/store/javascript/a.html'']"
  proof -
    have wk: "\<not> writeOk refusing_env p" "\<not> mkdirOk refusing_env p" for p
      by (simp_all add: refusing_env_def)
    show ?thesis unfolding b by (simp add: writeFile_def Let_def dp pj wk)
  qed
  from 1 2 3 l(1) la a b c c63 c64 show ?thesis by blast
qed

section \<open>Tables\<close>

lemma restructure_tables_Nil: "restructure_tables [] = []"
  by (simp add: restructure_tables_def)

lemma get_set_attr: "get_attr k (set_attr k v a) = Some v"
  by (induction a) (auto simp: get_attr_def)

lemma get_set_attr_other: "k' \<noteq> k \<Longrightarrow> get_attr k' (set_attr k v a) = get_attr k' a"
  by (induction a) (auto simp: get_attr_def)

lemma elements_plain:
  "plain n \<Longrightarrow> e \<in> set (elements_of n) \<Longrightarrow>
     tagName e \<noteq> ''thead'' \<and> tagName e \<noteq> ''tbody'' \<and> \<not> is_grid_row e"
proof (induction n rule: plain.induct)
  case (1 t a cs)
  from 1(3) consider "e = Element t a cs" | c where "c \<in> set cs" "e \<in> set (elements_of c)"
    by auto
  then show ?case
  proof cases
    case 1
    then show ?thesis using "1.prems"(1) by (simp add: is_grid_row_def)
  next
    case 2
    moreover have "plain c" using 2(1) "1.prems"(1) by (simp add: list_all_iff)
    ultimately show ?thesis using "1.IH" by blast
  qed
qed simp_all

lemma restructure_tables_append:
  "restructure_tables (xs @ ys) = restructure_tables xs @ restructure_tables ys"
  by (simp add: restructure_tables_def)

lemma restructure_tables_Cons:
  "restructure_tables (n # ns) = restructure n @ restructure_tables ns"
  by (simp add: restructure_tables_def)

lemma restructure_other:
  "t \<noteq> ''thead'' \<Longrightarrow> t \<noteq> ''tbody'' \<Longrightarrow>
     restructure (Element t a cs) = [Element t a (restructure_tables cs)]"
  by (simp add: restructure_tables_def)

lemma restructure_plug:
  "list_all outside_rows ctx \<Longrightarrow>
     restructure_tables (plug ctx ns) = plug (map restructure_frame ctx) (restructure_tables ns)"
proof (induction ctx)
  case Nil
  then show ?case by simp
next
  case (Cons f ctx)
  obtain l t a r where f: "f = (l, t, a, r)" by (cases f)
  have t: "t \<noteq> ''thead''" "t \<noteq> ''tbody''" using Cons.prems by (simp_all add: f outside_rows_def)
  have "list_all outside_rows ctx" using Cons.prems by simp
  from Cons.IH [OF this] show ?case
    by (simp add: f restructure_frame_def restructure_tables_append restructure_tables_Cons
          restructure_other [OF t] del: restructure.simps)
qed

lemma restructure_plain:
  "plain n \<Longrightarrow> restructure n = [n]"
proof (induction n rule: plain.induct)
  case (1 t a cs)
  have "concat (map restructure cs) = cs"
    using 1 by (induction cs) (simp_all)
  then show ?case using "1.prems" by simp
qed simp_all

lemma restructure_tables_plain: "list_all plain ns \<Longrightarrow> restructure_tables ns = ns"
  by (induction ns) (simp_all add: restructure_tables_Nil restructure_tables_Cons restructure_plain)

lemma make_cells_elements:
  "length (filter is_element (make_cells h i cs)) = length (filter is_element cs)
   \<and> filter (\<lambda>n. \<not> is_element n) (make_cells h i cs) = filter (\<lambda>n. \<not> is_element n) cs
   \<and> (\<forall>j < length (filter is_element cs).
         filter is_element (make_cells h i cs) ! j =
           Element ''vscode-data-grid-cell''
             (set_attr ''cell-type'' (if h then ''columnheader'' else ''default'')
               (set_attr ''grid-column'' (toString_nat (i + j + 1))
                 (attribs (filter is_element cs ! j))))
             (childNodes (filter is_element cs ! j)))"
  by (induction h i cs rule: make_cells.induct) (auto simp: nth_Cons split: nat.splits)


lemma make_row_element:
  "is_element r \<Longrightarrow>
     make_row h r =
       Element ''vscode-data-grid-row''
         (if h then set_attr ''row-type'' ''header'' (attribs r) else attribs r)
         (make_cells h 0 (childNodes r))"
  by (cases r) simp_all

lemma all_elements_Nil: "all_elements [] = []"
  by (simp add: all_elements_def)

lemma all_elements_append: "all_elements (xs @ ys) = all_elements xs @ all_elements ys"
  by (simp add: all_elements_def)

lemma all_elements_Element:
  "all_elements (Element t a cs # ns) = Element t a cs # all_elements cs @ all_elements ns"
  by (simp add: all_elements_def)

lemma all_elements_other: "\<not> is_element n \<Longrightarrow> all_elements (n # ns) = all_elements ns"
  by (cases n) (simp_all add: all_elements_def)

lemma plain_no_rows:
  "list_all plain ns \<Longrightarrow> grid_rows ns = [] \<and> row_groups ns = []"
proof -
  assume p: "list_all plain ns"
  have "\<not> is_grid_row e \<and> \<not> is_row_group e" if "e \<in> set (all_elements ns)" for e
  proof -
    from that obtain n where "n \<in> set ns" "e \<in> set (elements_of n)"
      by (auto simp: all_elements_def)
    moreover from this p have "plain n" by (simp add: list_all_iff)
    ultimately show ?thesis using elements_plain by (auto simp: is_row_group_def)
  qed
  then show ?thesis by (simp add: grid_rows_def row_groups_def filter_empty_conv)
qed

lemma rows_append:
  "grid_rows (xs @ ys) = grid_rows xs @ grid_rows ys"
  "row_groups (xs @ ys) = row_groups xs @ row_groups ys"
  by (simp_all add: grid_rows_def row_groups_def all_elements_append)

lemma rows_Element:
  "grid_rows (Element t a cs # ns)
     = (if t = ''vscode-data-grid-row'' then [Element t a cs] else []) @ grid_rows cs @ grid_rows ns"
  "row_groups (Element t a cs # ns)
     = (if t = ''thead'' \<or> t = ''tbody'' then [Element t a cs] else []) @ row_groups cs @ row_groups ns"
  by (simp_all add: grid_rows_def row_groups_def all_elements_Element is_grid_row_def is_row_group_def)

lemma rows_Nil: "grid_rows [] = []" "row_groups [] = []"
  by (simp_all add: grid_rows_def row_groups_def all_elements_def)

lemma plug_rows:
  "list_all plain_frame ctx \<Longrightarrow> list_all outside_rows ctx \<Longrightarrow>
     grid_rows (plug ctx ns) = grid_rows ns \<and> row_groups (plug ctx ns) = row_groups ns"
proof (induction ctx)
  case Nil
  then show ?case by simp
next
  case (Cons f ctx)
  obtain l t a r where f: "f = (l, t, a, r)" by (cases f)
  have p: "list_all plain l" "list_all plain r" "t \<noteq> ''vscode-data-grid-row''"
    and o: "t \<noteq> ''thead''" "t \<noteq> ''tbody''"
    using Cons.prems by (simp_all add: f plain_frame_def outside_rows_def)
  have "list_all plain_frame ctx" "list_all outside_rows ctx" using Cons.prems by simp_all
  from Cons.IH [OF this] show ?case
    using plain_no_rows [OF p(1)] plain_no_rows [OF p(2)] p(3) o
    by (simp add: f rows_append rows_Element)
qed

lemma cells_no_rows:
  assumes "\<forall>c \<in> set cs. list_all plain (childNodes c)"
  shows "grid_rows (make_cells h i cs) = [] \<and> row_groups (make_cells h i cs) = []"
  using assms
proof (induction h i cs rule: make_cells.induct)
  case (2 h i t a cs ns)
  have "list_all plain cs" using "2.prems" by simp
  from plain_no_rows [OF this] 2 show ?case
    by (simp add: rows_Element)
qed (simp_all add: grid_rows_def row_groups_def all_elements_def)

lemma make_rows_no_other:
  assumes "\<forall>row \<in> set (filter is_element cs). \<forall>c \<in> set (childNodes row). list_all plain (childNodes c)"
  shows "grid_rows (make_rows h cs) = make_rows h cs \<and> row_groups (make_rows h cs) = []"
  using assms
proof (induction cs)
  case Nil
  then show ?case by (simp add: make_rows_def grid_rows_def row_groups_def all_elements_def)
next
  case (Cons n cs)
  show ?case
  proof (cases n)
    case (Element t a ccs)
    have "\<forall>c \<in> set ccs. list_all plain (childNodes c)" using Cons.prems Element by simp
    note c = cells_no_rows [OF this, of h 0]
    have m: "make_rows h (n # cs) = make_row h n # make_rows h cs"
      by (simp add: make_rows_def Element)
    have "\<forall>row \<in> set (filter is_element cs). \<forall>c \<in> set (childNodes row). list_all plain (childNodes c)"
      using Cons.prems by (simp add: Element)
    then have ih: "grid_rows (make_rows h cs) = make_rows h cs \<and> row_groups (make_rows h cs) = []"
      by (rule Cons.IH)
    show ?thesis
      unfolding m using ih c by (simp add: Element rows_Element)
  next
    case (Text s)
    then show ?thesis using Cons by (auto simp: make_rows_def)
  next
    case (Comment s)
    then show ?thesis using Cons by (auto simp: make_rows_def)
  qed
qed


lemma restructure_frames_plain:
  "list_all plain_frame ctx \<Longrightarrow> map restructure_frame ctx = ctx"
  by (induction ctx)
     (auto simp: plain_frame_def restructure_frame_def restructure_tables_plain)

lemma restructure_row_group:
  "restructure (Element ''thead'' a cs) = make_rows True cs"
  "restructure (Element ''tbody'' a cs) = make_rows False cs"
  by simp_all

lemma make_row_props:
  assumes "is_element r" and "length (filter is_element (childNodes r)) = N"
  shows "tagName (make_row h r) = ''vscode-data-grid-row''
       \<and> attribs (make_row h r) = (if h then set_attr ''row-type'' ''header'' (attribs r) else attribs r)
       \<and> filter (\<lambda>n. \<not> is_element n) (childNodes (make_row h r))
            = filter (\<lambda>n. \<not> is_element n) (childNodes r)
       \<and> length (filter is_element (childNodes (make_row h r))) = N
       \<and> (\<forall>j<N. tagName (filter is_element (childNodes (make_row h r)) ! j) = ''vscode-data-grid-cell''
               \<and> get_attr ''grid-column'' (attribs (filter is_element (childNodes (make_row h r)) ! j))
                    = Some (toString_nat (j + 1))
               \<and> get_attr ''cell-type'' (attribs (filter is_element (childNodes (make_row h r)) ! j))
                    = Some (if h then ''columnheader'' else ''default'')
               \<and> childNodes (filter is_element (childNodes (make_row h r)) ! j)
                    = childNodes (filter is_element (childNodes r) ! j))"
proof -
  note c = make_cells_elements [of h 0 "childNodes r"]
  have m: "childNodes (make_row h r) = make_cells h 0 (childNodes r)"
    "tagName (make_row h r) = ''vscode-data-grid-row''"
    "attribs (make_row h r) = (if h then set_attr ''row-type'' ''header'' (attribs r) else attribs r)"
    by (simp_all add: make_row_element [OF assms(1)])
  show ?thesis
    unfolding m using c assms(2) by (simp add: get_set_attr get_set_attr_other)
qed

text \<open>
  Claim C5, as amended.  A table anywhere in the document, but not inside a
  \<^verbatim>\<open>thead\<close> or \<^verbatim>\<open>tbody\<close>, with a \<^verbatim>\<open>thead\<close> of two rows and a \<^verbatim>\<open>tbody\<close> of
  three rows, every row of \<open>N\<close> columns; rows and columns are the element
  children, whatever text lies between them.  The \<^verbatim>\<open>thead\<close> and the \<^verbatim>\<open>tbody\<close>
  are replaced, where they stood among the children of the \<^verbatim>\<open>table\<close> element, by
  their two and three rows; the \<^verbatim>\<open>table\<close> element stays, and the rest of the
  document gets the same step.  Each of the five rows is a grid row with \<open>N\<close> grid
  cells; the cell in place \<open>j\<close> (from 0) carries \<^verbatim>\<open>grid-column\<close> \<open>j + 1\<close> and
  keeps its content; the rows of the head carry \<^verbatim>\<open>row-type="header"\<close> and their
  cells \<^verbatim>\<open>cell-type="columnheader"\<close>, the rows of the body keep their attributes
  and their cells carry \<^verbatim>\<open>cell-type="default"\<close>; the text of a row stays.  When
  nothing else in the document, and nothing inside the cells, is a \<^verbatim>\<open>thead\<close>, a
  \<^verbatim>\<open>tbody\<close> or a grid row, the grid rows of the transformed document are
  exactly these five and no \<^verbatim>\<open>thead\<close> or \<^verbatim>\<open>tbody\<close> is left.
\<close>

theorem C5_table_becomes_grid_rows:
  assumes "list_all outside_rows ctx"
    and "length (filter is_element hcs) = 2" and "length (filter is_element bcs) = 3"
    and "\<forall>row \<in> set (filter is_element (hcs @ bcs)).
           length (filter is_element (childNodes row)) = N"
  shows "\<exists>rows.
           restructure_tables
             (plug ctx
                (lt @ [Element ''table'' ta
                         (w0 @ [Element ''thead'' ha hcs] @ w1 @ [Element ''tbody'' ba bcs] @ w2)]
                   @ rt))
             = plug (map restructure_frame ctx)
                 (restructure_tables lt
                    @ [Element ''table'' ta
                         (restructure_tables w0 @ take 2 rows @ restructure_tables w1
                            @ drop 2 rows @ restructure_tables w2)]
                    @ restructure_tables rt)
         \<and> length rows = 5
         \<and> (\<forall>i<5. tagName (rows ! i) = ''vscode-data-grid-row''
                \<and> attribs (rows ! i)
                     = (if i < 2
                        then set_attr ''row-type'' ''header'' (attribs (filter is_element (hcs @ bcs) ! i))
                        else attribs (filter is_element (hcs @ bcs) ! i))
                \<and> filter (\<lambda>n. \<not> is_element n) (childNodes (rows ! i))
                     = filter (\<lambda>n. \<not> is_element n) (childNodes (filter is_element (hcs @ bcs) ! i))
                \<and> length (filter is_element (childNodes (rows ! i))) = N
                \<and> (\<forall>j<N. tagName (filter is_element (childNodes (rows ! i)) ! j)
                            = ''vscode-data-grid-cell''
                       \<and> get_attr ''grid-column'' (attribs (filter is_element (childNodes (rows ! i)) ! j))
                            = Some (toString_nat (j + 1))
                       \<and> get_attr ''cell-type'' (attribs (filter is_element (childNodes (rows ! i)) ! j))
                            = Some (if i < 2 then ''columnheader'' else ''default'')
                       \<and> childNodes (filter is_element (childNodes (rows ! i)) ! j)
                            = childNodes
                                (filter is_element
                                   (childNodes (filter is_element (hcs @ bcs) ! i)) ! j)))
         \<and> (list_all plain_frame ctx \<and> list_all plain (lt @ rt @ w0 @ w1 @ w2)
              \<and> (\<forall>row \<in> set (filter is_element (hcs @ bcs)).
                    \<forall>c \<in> set (childNodes row). list_all plain (childNodes c))
            \<longrightarrow> grid_rows
                  (restructure_tables
                     (plug ctx
                        (lt @ [Element ''table'' ta
                                 (w0 @ [Element ''thead'' ha hcs] @ w1 @ [Element ''tbody'' ba bcs] @ w2)]
                           @ rt))) = rows
              \<and> row_groups
                  (restructure_tables
                     (plug ctx
                        (lt @ [Element ''table'' ta
                                 (w0 @ [Element ''thead'' ha hcs] @ w1 @ [Element ''tbody'' ba bcs] @ w2)]
                           @ rt))) = [])"
proof -
  let ?fh = "filter is_element hcs" and ?fb = "filter is_element bcs"
  let ?rows = "make_rows True hcs @ make_rows False bcs"
  let ?doc = "plug ctx
                (lt @ [Element ''table'' ta
                         (w0 @ [Element ''thead'' ha hcs] @ w1 @ [Element ''tbody'' ba bcs] @ w2)]
                   @ rt)"
  let ?out = "plug (map restructure_frame ctx)
                 (restructure_tables lt
                    @ [Element ''table'' ta
                         (restructure_tables w0 @ make_rows True hcs @ restructure_tables w1
                            @ make_rows False bcs @ restructure_tables w2)]
                    @ restructure_tables rt)"
  have lh: "length (make_rows True hcs) = 2" and lb: "length (make_rows False bcs) = 3"
    using assms(2,3) by (simp_all add: make_rows_def)
  have tk: "take 2 ?rows = make_rows True hcs" "drop 2 ?rows = make_rows False bcs"
    using lh by simp_all
  have eq: "restructure_tables ?doc = ?out"
    unfolding restructure_plug [OF assms(1)]
    by (simp add: restructure_tables_append restructure_tables_Cons restructure_tables_Nil
          restructure_other restructure_row_group del: restructure.simps)
  have len: "length ?rows = 5" using lh lb by simp
  have orig: "filter is_element (hcs @ bcs) = ?fh @ ?fb" by simp
  have row: "tagName (?rows ! i) = ''vscode-data-grid-row''
                \<and> attribs (?rows ! i)
                     = (if i < 2
                        then set_attr ''row-type'' ''header'' (attribs (filter is_element (hcs @ bcs) ! i))
                        else attribs (filter is_element (hcs @ bcs) ! i))
                \<and> filter (\<lambda>n. \<not> is_element n) (childNodes (?rows ! i))
                     = filter (\<lambda>n. \<not> is_element n) (childNodes (filter is_element (hcs @ bcs) ! i))
                \<and> length (filter is_element (childNodes (?rows ! i))) = N
                \<and> (\<forall>j<N. tagName (filter is_element (childNodes (?rows ! i)) ! j)
                            = ''vscode-data-grid-cell''
                       \<and> get_attr ''grid-column'' (attribs (filter is_element (childNodes (?rows ! i)) ! j))
                            = Some (toString_nat (j + 1))
                       \<and> get_attr ''cell-type'' (attribs (filter is_element (childNodes (?rows ! i)) ! j))
                            = Some (if i < 2 then ''columnheader'' else ''default'')
                       \<and> childNodes (filter is_element (childNodes (?rows ! i)) ! j)
                            = childNodes
                                (filter is_element
                                   (childNodes (filter is_element (hcs @ bcs) ! i)) ! j))"
    if i: "i < 5" for i
  proof (cases "i < 2")
    case True
    let ?r = "?fh ! i"
    have in_set: "?r \<in> set ?fh" using True assms(2) by (intro nth_mem) simp
    then have e: "is_element ?r" by simp
    have n: "length (filter is_element (childNodes ?r)) = N" using assms(4) in_set by simp
    have "?rows ! i = make_row True ?r" "filter is_element (hcs @ bcs) ! i = ?r"
      using True assms(2) lh by (simp_all add: nth_append make_rows_def)
    with make_row_props [OF e n, of True] True show ?thesis by simp
  next
    case False
    let ?r = "?fb ! (i - 2)"
    have k: "i - 2 < 3" using i False by simp
    have in_set: "?r \<in> set ?fb" using k assms(3) by (intro nth_mem) simp
    then have e: "is_element ?r" by simp
    have n: "length (filter is_element (childNodes ?r)) = N" using assms(4) in_set by simp
    have "?rows ! i = make_row False ?r" "filter is_element (hcs @ bcs) ! i = ?r"
      using False k assms(2,3) lh by (simp_all add: nth_append make_rows_def)
    with make_row_props [OF e n, of False] False show ?thesis by simp
  qed
  have cnt: "grid_rows (restructure_tables ?doc) = ?rows \<and> row_groups (restructure_tables ?doc) = []"
    if p: "list_all plain_frame ctx" "list_all plain (lt @ rt @ w0 @ w1 @ w2)"
       "\<forall>row \<in> set (filter is_element (hcs @ bcs)).
          \<forall>c \<in> set (childNodes row). list_all plain (childNodes c)"
  proof -
    have pl: "list_all plain lt" "list_all plain rt" "list_all plain w0" "list_all plain w1"
      "list_all plain w2" using p(2) by simp_all
    have ph: "\<forall>row \<in> set ?fh. \<forall>c \<in> set (childNodes row). list_all plain (childNodes c)"
      and pb: "\<forall>row \<in> set ?fb. \<forall>c \<in> set (childNodes row). list_all plain (childNodes c)"
      using p(3) by auto
    have "restructure_tables ?doc
            = plug ctx (lt @ [Element ''table'' ta
                                (w0 @ make_rows True hcs @ w1 @ make_rows False bcs @ w2)] @ rt)"
      unfolding restructure_plug [OF assms(1)]
      by (simp add: restructure_tables_append restructure_tables_Cons restructure_tables_Nil
            restructure_other restructure_row_group restructure_tables_plain pl
            restructure_frames_plain [OF p(1)] del: restructure.simps)
    then show ?thesis
      using plug_rows [OF p(1) assms(1)] plain_no_rows [OF pl(1)] plain_no_rows [OF pl(2)]
        plain_no_rows [OF pl(3)] plain_no_rows [OF pl(4)] plain_no_rows [OF pl(5)]
        make_rows_no_other [OF ph, of True] make_rows_no_other [OF pb, of False]
      by (simp add: rows_append rows_Element rows_Nil)
  qed
  have eq': "restructure_tables ?doc
             = plug (map restructure_frame ctx)
                 (restructure_tables lt
                    @ [Element ''table'' ta
                         (restructure_tables w0 @ take 2 ?rows @ restructure_tables w1
                            @ drop 2 ?rows @ restructure_tables w2)]
                    @ restructure_tables rt)"
    unfolding tk by (rule eq)
  from eq' len row cnt show ?thesis by blast
qed

text \<open>
  Claim C5 as stated says that the rows are inserted after the original table
  element and that the original table is absent afterwards.  On a table of two
  columns the transformed document is still one \<^verbatim>\<open>table\<close> element, and the five
  grid rows are its children.  And a table inside a cell of another table is not
  restructured at all: the document has the one grid row of the outer table, and
  the \<^verbatim>\<open>thead\<close> and the \<^verbatim>\<open>tbody\<close> of the inner table are still there.
\<close>

theorem C5_table_element_remains:
  "map tagName (restructure_tables simple_table) = [''table'']
   \<and> map tagName (childNodes (hd (restructure_tables simple_table)))
       = replicate 5 ''vscode-data-grid-row''
   \<and> count_list (map tagName (all_elements (restructure_tables nested_table)))
        ''vscode-data-grid-row'' = 1
   \<and> count_list (map tagName (all_elements (restructure_tables nested_table))) ''thead'' = 1
   \<and> count_list (map tagName (all_elements (restructure_tables nested_table))) ''tbody'' = 1"
  by code_simp

theorem C5_table_becomes_grid_rows_witness:
  "list_all outside_rows page_frames \<and> list_all plain_frame page_frames
   \<and> length (filter is_element spaced_head) = 2 \<and> length spaced_head = 5
   \<and> length (filter is_element spaced_body) = 3 \<and> length spaced_body = 7
   \<and> (\<exists>rows.
        restructure_tables table_page
          = plug page_frames
              ([Element ''h1'' [] [Text ''Sizes'']]
               @ [Element ''table'' [(''class'', ''simple'')]
                    ([Text ''\<newline>  ''] @ take 2 rows @ [Text ''\<newline>  '']
                     @ drop 2 rows @ [Text ''\<newline>''])]
               @ [Element ''p'' [] [Text ''End.'']])
        \<and> length rows = 5
        \<and> grid_rows (restructure_tables table_page) = rows
        \<and> row_groups (restructure_tables table_page) = []
        \<and> (\<forall>i<5. length (childNodes (rows ! i)) = 5
               \<and> length (filter is_element (childNodes (rows ! i))) = 2
               \<and> get_attr ''grid-column'' (attribs (filter is_element (childNodes (rows ! i)) ! 0))
                    = Some ''1''
               \<and> get_attr ''grid-column'' (attribs (filter is_element (childNodes (rows ! i)) ! 1))
                    = Some ''2''))
   \<and> (case fst (processDocument table_env ''sizes.html'' table_state) of
         Inr (Some d) \<Rightarrow>
           map tagName (grid_rows d) = replicate 5 ''vscode-data-grid-row''
           \<and> row_groups d = [] \<and> count_list (map tagName (all_elements d)) ''table'' = 1
       | _ \<Rightarrow> False)"
proof -
  have o: "list_all outside_rows page_frames" and pf: "list_all plain_frame page_frames"
    by (simp_all add: page_frames_def outside_rows_def plain_frame_def)
  have lh: "length (filter is_element spaced_head) = 2" "length spaced_head = 5"
    and lb: "length (filter is_element spaced_body) = 3" "length spaced_body = 7"
    by (simp_all add: spaced_head_def spaced_body_def spaced_row_def)
  have n: "\<forall>row \<in> set (filter is_element (spaced_head @ spaced_body)).
             length (filter is_element (childNodes row)) = 2
             \<and> length (childNodes row) = 5"
    by (simp add: spaced_head_def spaced_body_def spaced_row_def)
  then have n2: "\<forall>row \<in> set (filter is_element (spaced_head @ spaced_body)).
             length (filter is_element (childNodes row)) = 2" by blast
  have pl: "list_all plain ([Element ''h1'' [] [Text ''Sizes'']] @ [Element ''p'' [] [Text ''End.'']]
              @ [Text ''\<newline>  ''] @ [Text ''\<newline>  ''] @ [Text ''\<newline>''])"
    by simp
  have pc: "\<forall>row \<in> set (filter is_element (spaced_head @ spaced_body)).
              \<forall>c \<in> set (childNodes row). list_all plain (childNodes c)"
    by (simp add: spaced_head_def spaced_body_def spaced_row_def)
  have rp: "restructure_tables [Element ''h1'' [] [Text ''Sizes'']] = [Element ''h1'' [] [Text ''Sizes'']]"
    "restructure_tables [Element ''p'' [] [Text ''End.'']] = [Element ''p'' [] [Text ''End.'']]"
    "restructure_tables [Text ''\<newline>  ''] = [Text ''\<newline>  '']"
    "restructure_tables [Text ''\<newline>''] = [Text ''\<newline>'']"
    by (simp_all add: restructure_tables_def)
  have fr: "map restructure_frame page_frames = page_frames"
    using pf by (rule restructure_frames_plain)
  have d: "toString_nat (0 + 1) = ''1''" "toString_nat (1 + 1) = ''2''"
    by code_simp+
  from C5_table_becomes_grid_rows [OF o lh(1) lb(1) n2,
         of "[Element ''h1'' [] [Text ''Sizes'']]" "[(''class'', ''simple'')]" "[Text ''\<newline>  '']"
            "[]" "[Text ''\<newline>  '']" "[]" "[Text ''\<newline>'']" "[Element ''p'' [] [Text ''End.'']]",
         folded table_page_def, unfolded rp fr]
  obtain rows where
    r: "restructure_tables table_page
          = plug page_frames
              ([Element ''h1'' [] [Text ''Sizes'']]
               @ [Element ''table'' [(''class'', ''simple'')]
                    ([Text ''\<newline>  ''] @ take 2 rows @ [Text ''\<newline>  '']
                     @ drop 2 rows @ [Text ''\<newline>''])]
               @ [Element ''p'' [] [Text ''End.'']])"
       "length rows = 5"
       "\<forall>i<5. filter (\<lambda>n. \<not> is_element n) (childNodes (rows ! i))
                   = filter (\<lambda>n. \<not> is_element n)
                       (childNodes (filter is_element (spaced_head @ spaced_body) ! i))
               \<and> length (filter is_element (childNodes (rows ! i))) = 2
               \<and> (\<forall>j<2. get_attr ''grid-column''
                             (attribs (filter is_element (childNodes (rows ! i)) ! j))
                           = Some (toString_nat (j + 1)))"
       "list_all plain_frame page_frames
          \<and> list_all plain ([Element ''h1'' [] [Text ''Sizes'']] @ [Element ''p'' [] [Text ''End.'']]
              @ [Text ''\<newline>  ''] @ [Text ''\<newline>  ''] @ [Text ''\<newline>''])
          \<and> (\<forall>row \<in> set (filter is_element (spaced_head @ spaced_body)).
                \<forall>c \<in> set (childNodes row). list_all plain (childNodes c))
        \<longrightarrow> grid_rows (restructure_tables table_page) = rows
            \<and> row_groups (restructure_tables table_page) = []"
    by blast
  from r(4) pf pl pc have g: "grid_rows (restructure_tables table_page) = rows"
    "row_groups (restructure_tables table_page) = []" by blast+
  have c: "length (childNodes (rows ! i)) = 5
               \<and> length (filter is_element (childNodes (rows ! i))) = 2
               \<and> get_attr ''grid-column'' (attribs (filter is_element (childNodes (rows ! i)) ! 0))
                    = Some ''1''
               \<and> get_attr ''grid-column'' (attribs (filter is_element (childNodes (rows ! i)) ! 1))
                    = Some ''2''" if i: "i < 5" for i
  proof -
    let ?o = "filter is_element (spaced_head @ spaced_body) ! i"
    have "?o \<in> set (filter is_element (spaced_head @ spaced_body))"
      using i lh(1) lb(1) by (intro nth_mem) simp
    with n have o5: "length (childNodes ?o) = 5" "length (filter is_element (childNodes ?o)) = 2"
      by blast+
    from r(3) i have
      x: "filter (\<lambda>n. \<not> is_element n) (childNodes (rows ! i))
            = filter (\<lambda>n. \<not> is_element n) (childNodes ?o)"
         "length (filter is_element (childNodes (rows ! i))) = 2"
         "get_attr ''grid-column'' (attribs (filter is_element (childNodes (rows ! i)) ! 0))
            = Some (toString_nat (0 + 1))"
         "get_attr ''grid-column'' (attribs (filter is_element (childNodes (rows ! i)) ! 1))
            = Some (toString_nat (1 + 1))"
      by simp_all
    have "length (childNodes (rows ! i))
            = length (filter is_element (childNodes (rows ! i)))
              + length (filter (\<lambda>n. \<not> is_element n) (childNodes (rows ! i)))"
      by (rule sum_length_filter_compl [symmetric])
    also have "\<dots> = length (filter is_element (childNodes ?o))
                      + length (filter (\<lambda>n. \<not> is_element n) (childNodes ?o))"
      unfolding x(1) x(2) o5(2) by (rule refl)
    also have "\<dots> = length (childNodes ?o)" by (rule sum_length_filter_compl)
    finally have "length (childNodes (rows ! i)) = 5" unfolding o5(1) .
    with x show ?thesis unfolding d by simp
  qed
  have e: "case fst (processDocument table_env ''sizes.html'' table_state) of
         Inr (Some d) \<Rightarrow>
           map tagName (grid_rows d) = replicate 5 ''vscode-data-grid-row''
           \<and> row_groups d = [] \<and> count_list (map tagName (all_elements d)) ''table'' = 1
       | _ \<Rightarrow> False"
    by code_simp
  from o pf lh lb r(1,2) g c e show ?thesis by blast
qed

section \<open>Several downloads at once\<close>

lemma download_finish_index: "download_finish ev response st = index_docset ev (extract_response ev response st)"
  by (auto simp: Let_def download_finish_def index_docset_def Let_def)

lemma download_slug_start_finish:
  "download_slug ev sl force st =
     (case download_start sl force st of
        (False, st1) \<Rightarrow> (Inr (), st1)
      | (True, st1) \<Rightarrow> download_finish ev (fetch ev sl) st1)"
  by (simp add: download_slug_unfold download_start_def download_finish_index reset_def fetchExtract_def Let_def)

lemma download_single:
  "download ev (\<lambda>r. r) [sl] force st = download_slug ev sl force st"
  by (auto simp: download_def download_slug_start_finish Let_def split: prod.splits sum.splits bool.splits)

section \<open>The two manifests on the disk\<close>

lemma entry_file_segment:
  "proper_segment (last_segment (entry_file e))"
  "last_segment (entry_file e) \<noteq> ''items.json''"
  "last_segment (entry_file e) \<noteq> ''meta.json''"
proof -
  have l: "last_segment (entry_file e) = last_segment (fst (split_path (e_path e))) @ ''.html''"
    by (simp add: entry_file_def last_segment_def last_split_on_append)
  then have "5 \<le> length (last_segment (entry_file e))" by simp
  then show "proper_segment (last_segment (entry_file e))"
    by (auto simp: proper_segment_def)
  have "last (last_segment (entry_file e)) = CHR ''l''" by (simp add: l)
  then show "last_segment (entry_file e) \<noteq> ''items.json''"
    "last_segment (entry_file e) \<noteq> ''meta.json''" by auto
qed

lemma manifest_segment:
  "last_segment ''items.json'' = ''items.json''" "last_segment ''meta.json'' = ''meta.json''"
  "proper_segment ''items.json''" "proper_segment ''meta.json''"
  by (simp_all add: last_segment_def proper_segment_def)

lemma entry_file_not_manifest:
  "path_join d (entry_file e) \<noteq> path_join d ''items.json''"
  "path_join d (entry_file e) \<noteq> path_join d ''meta.json''"
  by (rule path_join_differ; simp add: entry_file_segment manifest_segment)+

lemma manifests_differ: "path_join d ''meta.json'' \<noteq> path_join d ''items.json''"
  by (rule path_join_differ) (simp_all add: manifest_segment)

lemma ancestors_self: "d \<in> set (ancestors d)"
  by (subst ancestors.simps) simp

lemma writeFile_other:
  "path_join (docsetPath st) f \<noteq> p \<Longrightarrow> files (writeFile ev f t st) p = files st p"
  by (simp add: writeFile_def Let_def)

lemma writeFile_written:
  assumes "mkdirOk ev (path_dirname (path_join (docsetPath st) f))"
    and "writeOk ev (path_join (docsetPath st) f)"
  shows "files (writeFile ev f t st) (path_join (docsetPath st) f) = Some t"
  using assms by (simp add: writeFile_def Let_def ancestors_self)

lemma processDocument_frame:
  assumes "processDocument ev f st = (r, st')" and "path_join (docsetPath st) f \<noteq> p"
  shows "docsetPath st' = docsetPath st \<and> files st' p = files st p"
  using assms
  by (auto simp: processDocument_def Let_def writeFile_other split: option.splits sum.splits)

lemma getDocument_frame:
  assumes "getDocument ev f st = (r, st')" and "path_join (docsetPath st) f \<noteq> p"
  shows "docsetPath st' = docsetPath st \<and> files st' p = files st p"
proof (cases "lru_has f (parsedDocuments st)")
  case True
  then show ?thesis using assms(1) unfolding getDocument_hit [OF True] by auto
next
  case False
  show ?thesis
  proof (cases "f \<in> processedDocuments st")
    case True
    then show ?thesis using assms(1) False
      by (auto simp: getDocument_def split: option.splits)
  next
    case np: False
    obtain r0 s0 where p: "processDocument ev f st = (r0, s0)" by (cases "processDocument ev f st")
    note fr = processDocument_frame [OF p assms(2)]
    show ?thesis using assms(1) fr unfolding getDocument_miss [OF False np] p
      by (auto split: sum.splits option.splits)
  qed
qed

lemma processEntry_frame:
  assumes "processEntry ev e st = (r, st')" and "path_join (docsetPath st) (entry_file e) \<noteq> p"
  shows "docsetPath st' = docsetPath st \<and> files st' p = files st p"
proof -
  obtain r0 s0 where g: "getDocument ev (entry_file e) st = (r0, s0)"
    by (cases "getDocument ev (entry_file e) st")
  have "st' = s0" using assms(1) unfolding processEntry_unfold g by (cases r0) simp_all
  then show ?thesis using getDocument_frame [OF g assms(2)] by simp
qed

lemma processEntries_frame:
  assumes "processEntries ev es i n st = (r, st')"
    and "\<forall>e. path_join (docsetPath st) (entry_file e) \<noteq> p"
  shows "docsetPath st' = docsetPath st \<and> files st' p = files st p"
  using assms
proof (induction es arbitrary: i st r st')
  case Nil
  then show ?case by simp
next
  case (Cons e es)
  obtain r0 s0 where a: "processEntry ev e st = (r0, s0)" by (cases "processEntry ev e st")
  have ge: "path_join (docsetPath st) (entry_file e) \<noteq> p" using Cons.prems(2) by simp
  note fr = processEntry_frame [OF a ge]
  show ?case
  proof (cases r0)
    case (Inl err)
    then have "st' = s0" using Cons.prems a by simp
    then show ?thesis using fr by simp
  next
    case (Inr item)
    let ?s = "s0\<lparr>console := console s0 @ [Processed (e_name e) i n]\<rparr>"
    obtain q t where b: "processEntries ev es (Suc i) n ?s = (q, t)"
      by (cases "processEntries ev es (Suc i) n ?s")
    have "st' = t" using Cons.prems a Inr b by (cases q) simp_all
    moreover have "\<forall>e. path_join (docsetPath ?s) (entry_file e) \<noteq> p"
      using Cons.prems(2) fr by simp
    note Cons.IH [OF b this]
    ultimately show ?thesis using fr by simp
  qed
qed

lemma extract_entry_frame:
  "files (extract_entry ev x st) = files st \<and> docsetPath (extract_entry ev x st) = docsetPath st"
  by (simp add: extract_entry_def Let_def)

lemma extract_response_frame:
  "files (extract_response ev response st) = files st
   \<and> docsetPath (extract_response ev response st) = docsetPath st"
proof (cases response)
  case None
  then show ?thesis by (simp add: extract_response_def)
next
  case (Some records)
  have "files (fold (extract_entry ev) records st) = files st
        \<and> docsetPath (fold (extract_entry ev) records st) = docsetPath st"
    by (induction records arbitrary: st) (simp_all add: extract_entry_frame)
  then show ?thesis by (simp add: extract_response_def Some)
qed

lemma download_finish_cases:
  assumes "download_finish ev response st1 = (r, st')"
  obtains
    (no_manifests) "documents (extract_response ev response st1) ''index.json'' = None
                    \<or> documents (extract_response ev response st1) ''meta.json'' = None"
      "r = Inr ()"
      "st' = (extract_response ev response st1)
               \<lparr>console := console (extract_response ev response st1) @ [NoManifests]\<rparr>"
  | (bad_meta) indexFile metaFile where
      "documents (extract_response ev response st1) ''index.json'' = Some indexFile"
      "documents (extract_response ev response st1) ''meta.json'' = Some metaFile"
      "parseMeta ev metaFile = None" "r = Inl ManifestError"
      "st' = extract_response ev response st1"
  | (bad_index) indexFile metaFile meta where
      "documents (extract_response ev response st1) ''index.json'' = Some indexFile"
      "documents (extract_response ev response st1) ''meta.json'' = Some metaFile"
      "parseMeta ev metaFile = Some meta" "parseIndex ev indexFile = None" "r = Inl ManifestError"
      "st' = (writeFile ev ''meta.json'' (stringifyMeta ev meta) (extract_response ev response st1))
               \<lparr>docsetName := m_name meta\<rparr>"
  | (entry_failed) indexFile metaFile meta entries e where
      "documents (extract_response ev response st1) ''index.json'' = Some indexFile"
      "documents (extract_response ev response st1) ''meta.json'' = Some metaFile"
      "parseMeta ev metaFile = Some meta" "parseIndex ev indexFile = Some entries"
      "processEntries ev entries 0 (length entries)
         ((writeFile ev ''meta.json'' (stringifyMeta ev meta) (extract_response ev response st1))
            \<lparr>docsetName := m_name meta\<rparr>) = (Inl e, st')"
      "r = Inl e"
  | (finished) indexFile metaFile meta entries items st5 where
      "documents (extract_response ev response st1) ''index.json'' = Some indexFile"
      "documents (extract_response ev response st1) ''meta.json'' = Some metaFile"
      "parseMeta ev metaFile = Some meta" "parseIndex ev indexFile = Some entries"
      "processEntries ev entries 0 (length entries)
         ((writeFile ev ''meta.json'' (stringifyMeta ev meta) (extract_response ev response st1))
            \<lparr>docsetName := m_name meta\<rparr>) = (Inr items, st5)"
      "r = Inr ()" "st' = writeFile ev ''items.json'' (stringifyItems ev items) st5"
proof -
  let ?st2 = "extract_response ev response st1"
  show thesis
  proof (cases "documents ?st2 ''index.json''")
    case None
    then show ?thesis using assms no_manifests by (auto simp: Let_def download_finish_def)
  next
    case i: (Some indexFile)
    show ?thesis
    proof (cases "documents ?st2 ''meta.json''")
      case None
      then show ?thesis using assms no_manifests i by (auto simp: Let_def download_finish_def)
    next
      case m: (Some metaFile)
      show ?thesis
      proof (cases "parseMeta ev metaFile")
        case None
        then show ?thesis using assms bad_meta [OF i m] by (auto simp: Let_def download_finish_def i m)
      next
        case pm: (Some meta)
        let ?st4 = "(writeFile ev ''meta.json'' (stringifyMeta ev meta) ?st2)\<lparr>docsetName := m_name meta\<rparr>"
        show ?thesis
        proof (cases "parseIndex ev indexFile")
          case None
          then show ?thesis using assms bad_index [OF i m pm]
            by (auto simp: Let_def download_finish_def i m pm)
        next
          case pi: (Some entries)
          obtain q t where p: "processEntries ev entries 0 (length entries) ?st4 = (q, t)"
            by (cases "processEntries ev entries 0 (length entries) ?st4")
          show ?thesis
          proof (cases q)
            case (Inl e)
            then show ?thesis using assms entry_failed [OF i m pm pi, of e] p
              by (auto simp: Let_def download_finish_def i m pm pi)
          next
            case (Inr items)
            then show ?thesis using assms finished [OF i m pm pi, of items t] p
              by (auto simp: Let_def download_finish_def i m pm pi)
          qed
        qed
      qed
    qed
  qed
qed

text \<open>
  Claim C3, as amended.  For the part of a download that follows the response.
  A download that fails leaves \<^verbatim>\<open>items.json\<close> as it was.  When both manifests
  are in the archive, the meta manifest parses and the disk accepts the write,
  \<^verbatim>\<open>meta.json\<close> is on the disk at the end, also when the download then failed.
  When \<^verbatim>\<open>items.json\<close> has changed, the download ended normally: the index of
  the archive parsed, the loop ran over all of its entries from the state that the
  write of \<^verbatim>\<open>meta.json\<close> left, it gave one item for every entry, it left
  \<^verbatim>\<open>items.json\<close> alone, and the write of that list is the last step.  For the
  loader: when \<^verbatim>\<open>meta.json\<close> or \<^verbatim>\<open>items.json\<close> of a slug is missing, it reads
  nothing of that slug and of the slugs after it, reports the slug and stops; the
  only manifest the slug can have then is the one of the previous load, taken over
  before the files are looked at.
\<close>

theorem C3_meta_first_items_last:
  assumes "download_finish ev response st1 = (r, st')"
  shows "(\<forall>e. r = Inl e \<longrightarrow>
            files st' (path_join (docsetPath st1) ''items.json'')
              = files st1 (path_join (docsetPath st1) ''items.json''))
       \<and> (\<forall>indexFile metaFile meta.
            documents (extract_response ev response st1) ''index.json'' = Some indexFile
            \<and> documents (extract_response ev response st1) ''meta.json'' = Some metaFile
            \<and> parseMeta ev metaFile = Some meta
            \<and> mkdirOk ev (path_dirname (path_join (docsetPath st1) ''meta.json''))
            \<and> writeOk ev (path_join (docsetPath st1) ''meta.json'')
            \<longrightarrow> files st' (path_join (docsetPath st1) ''meta.json'') = Some (stringifyMeta ev meta))
       \<and> (files st' (path_join (docsetPath st1) ''items.json'')
              \<noteq> files st1 (path_join (docsetPath st1) ''items.json'')
            \<longrightarrow> r = Inr ()
              \<and> (\<exists>indexFile metaFile meta entries items st5.
                    documents (extract_response ev response st1) ''index.json'' = Some indexFile
                    \<and> documents (extract_response ev response st1) ''meta.json'' = Some metaFile
                    \<and> parseMeta ev metaFile = Some meta
                    \<and> parseIndex ev indexFile = Some entries
                    \<and> processEntries ev entries 0 (length entries)
                         ((writeFile ev ''meta.json'' (stringifyMeta ev meta)
                             (extract_response ev response st1))\<lparr>docsetName := m_name meta\<rparr>)
                         = (Inr items, st5)
                    \<and> length items = length entries
                    \<and> map path items = map entry_file entries
                    \<and> docsetPath st5 = docsetPath st1
                    \<and> files st5 (path_join (docsetPath st1) ''items.json'')
                         = files st1 (path_join (docsetPath st1) ''items.json'')
                    \<and> st' = writeFile ev ''items.json'' (stringifyItems ev items) st5))
       \<and> (\<not> (existsSync st (path_join3 (storePath st) sl ''meta.json'')
               \<and> existsSync st (path_join3 (storePath st) sl ''items.json''))
            \<longrightarrow> load_loop ev force prev st (sl # sls) ad
                  = (Inr (),
                     (if \<not> force \<and> prev sl \<noteq> None
                      then ad\<lparr>manifests := (manifests ad)(sl := prev sl)\<rparr> else ad)
                       \<lparr>shown := shown ad @ [sl]\<rparr>))"
proof -
  let ?st2 = "extract_response ev response st1"
  let ?pI = "path_join (docsetPath st1) ''items.json''"
  let ?pM = "path_join (docsetPath st1) ''meta.json''"
  note x = extract_response_frame [of ev response st1]
  have wm: "docsetPath (writeFile ev ''meta.json'' t ?st2) = docsetPath st1
            \<and> files (writeFile ev ''meta.json'' t ?st2) ?pI = files st1 ?pI" for t
    using x writeFile_other [of ?st2 "''meta.json''" ?pI ev t] manifests_differ by simp
  have wmm: "mkdirOk ev (path_dirname ?pM) \<Longrightarrow> writeOk ev ?pM \<Longrightarrow>
               files (writeFile ev ''meta.json'' t ?st2) ?pM = Some t" for t
    using x writeFile_written [of ev ?st2 "''meta.json''" t] by simp
  have pe: "docsetPath s' = docsetPath s
            \<and> files s' (path_join (docsetPath s) ''items.json'') = files s (path_join (docsetPath s) ''items.json'')
            \<and> files s' (path_join (docsetPath s) ''meta.json'') = files s (path_join (docsetPath s) ''meta.json'')"
    if "processEntries ev es i n s = (q, s')" for es i n s q s'
    using processEntries_frame [OF that, of "path_join (docsetPath s) ''items.json''"]
          processEntries_frame [OF that, of "path_join (docsetPath s) ''meta.json''"]
          entry_file_not_manifest
    by simp
  have a: "\<forall>e. r = Inl e \<longrightarrow> files st' ?pI = files st1 ?pI"
    using assms
  proof (cases rule: download_finish_cases)
    case (entry_failed indexFile metaFile meta entries e)
    from pe [OF entry_failed(5)] wm show ?thesis by simp
  qed (simp_all add: x wm)
  have b: "\<forall>indexFile metaFile meta.
            documents ?st2 ''index.json'' = Some indexFile
            \<and> documents ?st2 ''meta.json'' = Some metaFile
            \<and> parseMeta ev metaFile = Some meta
            \<and> mkdirOk ev (path_dirname ?pM) \<and> writeOk ev ?pM
            \<longrightarrow> files st' ?pM = Some (stringifyMeta ev meta)"
    using assms
  proof (cases rule: download_finish_cases)
    case (bad_index indexFile metaFile meta)
    then show ?thesis using wmm by simp
  next
    case (entry_failed indexFile metaFile meta entries e)
    from pe [OF entry_failed(5)] wm wmm entry_failed(1-3) show ?thesis by simp
  next
    case (finished indexFile metaFile meta entries items st5)
    from pe [OF finished(5)] wm have d: "docsetPath st5 = docsetPath st1" by simp
    have "files st' ?pM = files st5 ?pM"
      unfolding finished(7) using writeFile_other [of st5 "''items.json''" ?pM] d manifests_differ [of "docsetPath st1"]
      by (metis)
    with pe [OF finished(5)] wm wmm finished(1-3) show ?thesis by simp
  qed auto
  have c: "files st' ?pI \<noteq> files st1 ?pI
            \<longrightarrow> r = Inr ()
              \<and> (\<exists>indexFile metaFile meta entries items st5.
                    documents ?st2 ''index.json'' = Some indexFile
                    \<and> documents ?st2 ''meta.json'' = Some metaFile
                    \<and> parseMeta ev metaFile = Some meta
                    \<and> parseIndex ev indexFile = Some entries
                    \<and> processEntries ev entries 0 (length entries)
                         ((writeFile ev ''meta.json'' (stringifyMeta ev meta) ?st2)\<lparr>docsetName := m_name meta\<rparr>)
                         = (Inr items, st5)
                    \<and> length items = length entries
                    \<and> map path items = map entry_file entries
                    \<and> docsetPath st5 = docsetPath st1
                    \<and> files st5 ?pI = files st1 ?pI
                    \<and> st' = writeFile ev ''items.json'' (stringifyItems ev items) st5)"
    using assms
  proof (cases rule: download_finish_cases)
    case (entry_failed indexFile metaFile meta entries e)
    from pe [OF entry_failed(5)] wm show ?thesis by simp
  next
    case (finished indexFile metaFile meta entries items st5)
    note i = processEntries_items [OF finished(5)]
    have "length items = length entries" using i by (metis length_map)
    moreover from pe [OF finished(5)] wm
    have "docsetPath st5 = docsetPath st1" "files st5 ?pI = files st1 ?pI" by simp_all
    ultimately show ?thesis using finished i by blast
  qed (simp_all add: x wm)
  have d: "\<not> (existsSync st (path_join3 (storePath st) sl ''meta.json'')
               \<and> existsSync st (path_join3 (storePath st) sl ''items.json''))
            \<longrightarrow> load_loop ev force prev st (sl # sls) ad
                  = (Inr (),
                     (if \<not> force \<and> prev sl \<noteq> None
                      then ad\<lparr>manifests := (manifests ad)(sl := prev sl)\<rparr> else ad)
                       \<lparr>shown := shown ad @ [sl]\<rparr>)"
    by (auto simp: Let_def)
  from a b c d show ?thesis by (intro conjI)
qed

text \<open>
  Claim C3 as stated says that the two files are written together, after all
  entries, so that a download that fails partway never leaves \<^verbatim>\<open>meta.json\<close>
  without \<^verbatim>\<open>items.json\<close>, and that the loader takes a docset as present only
  when both files exist.  The archive of the slug \<^verbatim>\<open>broken\<close> has a meta manifest
  that parses and an index that does not: \<^verbatim>\<open>meta.json\<close> is written before the index
  is read, the download fails, and \<^verbatim>\<open>items.json\<close> is not there.  A load that
  follows, by an adapter that knew the slug before, finds the directory, downloads
  nothing, and keeps the manifest of the slug although \<^verbatim>\<open>items.json\<close> is missing.
\<close>

theorem C3_meta_without_items:
  "fst (download_slug demo_env ''broken'' False (new_downloader ''/store'')) = Inl ManifestError
   \<and> files broken_failed ''/store/broken/meta.json'' = Some ''JavaScript,javascript,mdn''
   \<and> files broken_failed ''/store/broken/items.json'' = None
   \<and> fst (load demo_env id [''broken''] False (broken_adapter, broken_failed)) = Inr ()
   \<and> manifests (fst (snd (load demo_env id [''broken''] False (broken_adapter, broken_failed))))
        ''broken'' = Some demo_meta
   \<and> a_items (fst (snd (load demo_env id [''broken''] False (broken_adapter, broken_failed)))) = []
   \<and> shown (fst (snd (load demo_env id [''broken''] False (broken_adapter, broken_failed))))
        = [''broken'']"
  by code_simp

theorem C3_meta_first_items_last_witness:
  "(\<exists>st' items st5.
      download_finish demo_env (fetch demo_env ''javascript'') javascript_start = (Inr (), st')
      \<and> files javascript_start ''/store/javascript/items.json'' = None
      \<and> files st' ''/store/javascript/items.json''
           = Some ''Array@js/array.html;~at~@js/array.html.html;~gone~@js/gone.html;''
      \<and> files st' ''/store/javascript/meta.json'' = Some ''JavaScript,javascript,mdn''
      \<and> processEntries demo_env [entry_Array, entry_at, entry_gone] 0 3
            ((writeFile demo_env ''meta.json'' ''JavaScript,javascript,mdn''
                (extract_response demo_env (fetch demo_env ''javascript'') javascript_start))
               \<lparr>docsetName := ''JavaScript''\<rparr>) = (Inr items, st5)
      \<and> length items = 3
      \<and> files st5 ''/store/javascript/items.json'' = None
      \<and> st' = writeFile demo_env ''items.json'' (stringifyItems demo_env items) st5)
   \<and> (\<exists>st'. download_finish demo_env (fetch demo_env ''broken'') broken_start = (Inl ManifestError, st')
      \<and> files st' ''/store/broken/items.json'' = None
      \<and> files st' ''/store/broken/meta.json'' = Some ''JavaScript,javascript,mdn''
      \<and> load_loop demo_env False [''broken'' \<mapsto> demo_meta] st' [''broken''] new_adapter
           = (Inr (), new_adapter\<lparr>manifests := [''broken'' \<mapsto> demo_meta], shown := [''broken'']\<rparr>))"
proof -
  have fin: "\<exists>st' items st5.
      download_finish demo_env (fetch demo_env ''javascript'') javascript_start = (Inr (), st')
      \<and> files javascript_start ''/store/javascript/items.json'' = None
      \<and> files st' ''/store/javascript/items.json''
           = Some ''Array@js/array.html;~at~@js/array.html.html;~gone~@js/gone.html;''
      \<and> files st' ''/store/javascript/meta.json'' = Some ''JavaScript,javascript,mdn''
      \<and> processEntries demo_env [entry_Array, entry_at, entry_gone] 0 3
            ((writeFile demo_env ''meta.json'' ''JavaScript,javascript,mdn''
                (extract_response demo_env (fetch demo_env ''javascript'') javascript_start))
               \<lparr>docsetName := ''JavaScript''\<rparr>) = (Inr items, st5)
      \<and> length items = 3
      \<and> files st5 ''/store/javascript/items.json'' = None
      \<and> st' = writeFile demo_env ''items.json'' (stringifyItems demo_env items) st5"
  proof -
    let ?st2 = "extract_response demo_env (fetch demo_env ''javascript'') javascript_start"
    obtain r st' where f: "download_finish demo_env (fetch demo_env ''javascript'') javascript_start = (r, st')"
      by (cases "download_finish demo_env (fetch demo_env ''javascript'') javascript_start")
    have dp: "docsetPath javascript_start = ''/store/javascript''"
      and i0: "files javascript_start ''/store/javascript/items.json'' = None"
      and ix: "documents ?st2 ''index.json'' = Some ''INDEX''"
      and mx: "documents ?st2 ''meta.json'' = Some ''META''"
      and pm: "parseMeta demo_env ''META'' = Some demo_meta"
      and pi: "parseIndex demo_env ''INDEX'' = Some [entry_Array, entry_at, entry_gone]"
      and ok: "mkdirOk demo_env (path_dirname ''/store/javascript/meta.json'')"
              "writeOk demo_env ''/store/javascript/meta.json''"
      and sm: "stringifyMeta demo_env demo_meta = ''JavaScript,javascript,mdn''"
      and mn: "m_name demo_meta = ''JavaScript''"
      and pj: "path_join ''/store/javascript'' ''items.json'' = ''/store/javascript/items.json''"
              "path_join ''/store/javascript'' ''meta.json'' = ''/store/javascript/meta.json''"
      by code_simp+
    have i1: "files st' ''/store/javascript/items.json''
                = Some ''Array@js/array.html;~at~@js/array.html.html;~gone~@js/gone.html;''"
    proof -
      have "files (snd (download_finish demo_env (fetch demo_env ''javascript'') javascript_start))
              ''/store/javascript/items.json''
              = Some ''Array@js/array.html;~at~@js/array.html.html;~gone~@js/gone.html;''"
        by code_simp
      then show ?thesis by (simp add: f)
    qed
    note t = C3_meta_first_items_last
               [OF f, of javascript_start "''javascript''" False Map.empty "[]" new_adapter,
                unfolded dp pj]
    have ne: "files st' ''/store/javascript/items.json''
                \<noteq> files javascript_start ''/store/javascript/items.json''"
      by (simp add: i0 i1)
    note c3 = t [THEN conjunct2, THEN conjunct2, THEN conjunct1, THEN mp, OF ne]
    from c3 have r: "r = Inr ()" by (rule conjunct1)
    from t ix mx pm ok sm
    have m1: "files st' ''/store/javascript/meta.json'' = Some ''JavaScript,javascript,mdn''"
      by simp
    from c3 [THEN conjunct2] obtain indexFile metaFile meta entries items st5 where
      e: "documents ?st2 ''index.json'' = Some indexFile"
         "documents ?st2 ''meta.json'' = Some metaFile"
         "parseMeta demo_env metaFile = Some meta"
         "parseIndex demo_env indexFile = Some entries"
         "processEntries demo_env entries 0 (length entries)
            ((writeFile demo_env ''meta.json'' (stringifyMeta demo_env meta) ?st2)
               \<lparr>docsetName := m_name meta\<rparr>) = (Inr items, st5)"
         "length items = length entries"
         "files st5 ''/store/javascript/items.json'' = files javascript_start ''/store/javascript/items.json''"
         "st' = writeFile demo_env ''items.json'' (stringifyItems demo_env items) st5"
      by blast
    from e(1,2) ix mx have "indexFile = ''INDEX''" "metaFile = ''META''" by simp_all
    with e(3,4) pm pi have me: "meta = demo_meta" "entries = [entry_Array, entry_at, entry_gone]"
      by simp_all
    have len3: "length [entry_Array, entry_at, entry_gone] = 3" by simp
    note p5 = e(5) [unfolded me sm mn len3] and l6 = e(6) [unfolded me len3]
    from f r i0 i1 m1 p5 l6 e(7,8) show ?thesis by (simp del: processEntries.simps)
  qed
  have bad: "\<exists>st'. download_finish demo_env (fetch demo_env ''broken'') broken_start = (Inl ManifestError, st')
      \<and> files st' ''/store/broken/items.json'' = None
      \<and> files st' ''/store/broken/meta.json'' = Some ''JavaScript,javascript,mdn''
      \<and> load_loop demo_env False [''broken'' \<mapsto> demo_meta] st' [''broken''] new_adapter
           = (Inr (), new_adapter\<lparr>manifests := [''broken'' \<mapsto> demo_meta], shown := [''broken'']\<rparr>)"
  proof -
    let ?st2 = "extract_response demo_env (fetch demo_env ''broken'') broken_start"
    obtain r st' where f: "download_finish demo_env (fetch demo_env ''broken'') broken_start = (r, st')"
      by (cases "download_finish demo_env (fetch demo_env ''broken'') broken_start")
    have r: "r = Inl ManifestError"
    proof -
      have "fst (download_finish demo_env (fetch demo_env ''broken'') broken_start) = Inl ManifestError"
        by code_simp
      then show ?thesis by (simp add: f)
    qed
    have dp: "docsetPath broken_start = ''/store/broken''"
      and i0: "files broken_start ''/store/broken/items.json'' = None"
      and ix: "documents ?st2 ''index.json'' = Some ''GARBAGE''"
      and mx: "documents ?st2 ''meta.json'' = Some ''META''"
      and pm: "parseMeta demo_env ''META'' = Some demo_meta"
      and ok: "mkdirOk demo_env (path_dirname ''/store/broken/meta.json'')"
              "writeOk demo_env ''/store/broken/meta.json''"
      and sm: "stringifyMeta demo_env demo_meta = ''JavaScript,javascript,mdn''"
      and pj: "path_join ''/store/broken'' ''items.json'' = ''/store/broken/items.json''"
              "path_join ''/store/broken'' ''meta.json'' = ''/store/broken/meta.json''"
              "path_join3 ''/store'' ''broken'' ''items.json'' = ''/store/broken/items.json''"
              "path_join3 ''/store'' ''broken'' ''meta.json'' = ''/store/broken/meta.json''"
      by code_simp+
    have sp: "storePath st' = ''/store''"
    proof -
      have "storePath (snd (download_finish demo_env (fetch demo_env ''broken'') broken_start)) = ''/store''"
        by code_simp
      then show ?thesis by (simp add: f)
    qed
    note t = C3_meta_first_items_last [OF f, of st' "''broken''" False "[''broken'' \<mapsto> demo_meta]" "[]" new_adapter,
               unfolded dp sp pj]
    from t r i0 have a: "files st' ''/store/broken/items.json'' = None" by simp
    from t ix mx pm ok sm have b: "files st' ''/store/broken/meta.json'' = Some ''JavaScript,javascript,mdn''"
      by simp
    have "''/store/broken/items.json'' \<notin> dirs st'"
    proof -
      have "''/store/broken/items.json''
              \<notin> dirs (snd (download_finish demo_env (fetch demo_env ''broken'') broken_start))"
        by code_simp
      then show ?thesis by (simp add: f)
    qed
    with a have "\<not> (existsSync st' ''/store/broken/meta.json'' \<and> existsSync st' ''/store/broken/items.json'')"
      by (simp add: existsSync_def)
    with t have "load_loop demo_env False [''broken'' \<mapsto> demo_meta] st' [''broken''] new_adapter
           = (Inr (), (new_adapter\<lparr>manifests := (manifests new_adapter)(''broken'' := [''broken'' \<mapsto> demo_meta] ''broken'')\<rparr>)
                        \<lparr>shown := shown new_adapter @ [''broken'']\<rparr>)"
      by simp
    then have "load_loop demo_env False [''broken'' \<mapsto> demo_meta] st' [''broken''] new_adapter
           = (Inr (), new_adapter\<lparr>manifests := [''broken'' \<mapsto> demo_meta], shown := [''broken'']\<rparr>)"
      by (simp add: new_adapter_def)
    with f r a b show ?thesis by simp
  qed
  from fin bad show ?thesis by (rule conjI)
qed

text \<open>
  The loop of the loader as a whole: the items it has loaded are those of the first
  \<open>k\<close> slugs of the list, as \<^verbatim>\<open>items.json\<close> holds them, and each of these slugs
  has both of its files on the disk.
\<close>

theorem loader_needs_both_files:
  assumes "load_loop ev force prev st sls ad = (r, ad')"
  shows "\<exists>k \<le> length sls.
           a_items ad' = a_items ad @ concat (map (items_on_disk ev st) (take k sls))
           \<and> (\<forall>sl \<in> set (take k sls). both_files st sl)"
  using assms
proof (induction sls arbitrary: ad)
  case Nil
  then show ?case by simp
next
  case (Cons sl sls)
  let ?ad1 = "if \<not> force \<and> prev sl \<noteq> None
              then ad\<lparr>manifests := (manifests ad)(sl := prev sl)\<rparr> else ad"
  let ?mp = "path_join3 (storePath st) sl ''meta.json''"
  let ?ip = "path_join3 (storePath st) sl ''items.json''"
  have a1: "a_items ?ad1 = a_items ad" by simp
  show ?case
  proof (cases "both_files st sl")
    case False
    then have "a_items ad' = a_items ad"
      using Cons.prems by (auto simp: both_files_def Let_def)
    then show ?thesis by (intro exI [of _ 0]) simp
  next
    case True
    show ?thesis
    proof (cases "files st ?mp")
      case None
      then have "a_items ad' = a_items ad"
        using Cons.prems True by (auto simp: both_files_def Let_def split: option.splits)
      then show ?thesis by (intro exI [of _ 0]) simp
    next
      case m: (Some meta)
      show ?thesis
      proof (cases "files st ?ip")
        case None
        then have "a_items ad' = a_items ad"
          using Cons.prems True m by (auto simp: both_files_def Let_def split: option.splits)
        then show ?thesis by (intro exI [of _ 0]) simp
      next
        case i: (Some items)
        show ?thesis
        proof (cases "parseMeta ev meta")
          case None
          then have "a_items ad' = a_items ad"
            using Cons.prems True m i by (auto simp: both_files_def Let_def)
          then show ?thesis by (intro exI [of _ 0]) simp
        next
          case pm: (Some mt)
          show ?thesis
          proof (cases "parseItems ev items")
            case None
            then have "a_items ad' = a_items ad"
              using Cons.prems True m i pm by (auto simp: both_files_def Let_def)
            then show ?thesis by (intro exI [of _ 0]) simp
          next
            case (Some its)
            let ?ad3 = "?ad1\<lparr>manifests := (manifests ?ad1)(sl \<mapsto> mt),
                             a_items := a_items ?ad1 @ its\<rparr>"
            have "load_loop ev force prev st sls ?ad3 = (r, ad')"
              using Cons.prems True m i pm Some by (auto simp: both_files_def Let_def)
            from Cons.IH [OF this] obtain k where k: "k \<le> length sls"
              "a_items ad' = a_items ?ad3 @ concat (map (items_on_disk ev st) (take k sls))"
              "\<forall>s \<in> set (take k sls). both_files st s" by blast
            have "items_on_disk ev st sl = its" by (simp add: items_on_disk_def i Some)
            then have "a_items ad' = a_items ad @ concat (map (items_on_disk ev st) (take (Suc k) (sl # sls)))"
              using k(2) by simp
            moreover have "\<forall>s \<in> set (take (Suc k) (sl # sls)). both_files st s"
              using k(3) True by simp
            ultimately show ?thesis using k(1) by (intro exI [of _ "Suc k"]) simp
          qed
        qed
      qed
    qed
  qed
qed

theorem loader_needs_both_files_witness:
  "\<exists>k \<le> 2.
     a_items (snd (load_loop plain_env False Map.empty javascript_done
                     [''javascript'', ''cobol''] new_adapter))
       = concat (map (items_on_disk plain_env javascript_done) (take k [''javascript'', ''cobol'']))
     \<and> (\<forall>sl \<in> set (take k [''javascript'', ''cobol'']). both_files javascript_done sl)"
proof -
  obtain r ad' where l: "load_loop plain_env False Map.empty javascript_done
                           [''javascript'', ''cobol''] new_adapter = (r, ad')"
    by (cases "load_loop plain_env False Map.empty javascript_done
                 [''javascript'', ''cobol''] new_adapter")
  have "a_items new_adapter = []" by (simp add: new_adapter_def)
  with loader_needs_both_files [OF l] show ?thesis
    unfolding l by (simp add: numeral_2_eq_2)
qed

lemma loader_example:
  "map name (a_items (snd (load_loop plain_env False Map.empty javascript_done
                             [''javascript'', ''cobol''] new_adapter)))
     = [''Array@js/array.html'', ''~at~@js/array.html.html'', ''~gone~@js/gone.html'']
   \<and> shown (snd (load_loop plain_env False Map.empty javascript_done
                     [''javascript'', ''cobol''] new_adapter)) = [''cobol'']"
  by code_simp

section \<open>Downloads that share their state\<close>

text \<open>
  Claim C9.  The working state of a download (slug, output directory, extracted
  files) should be owned by that download alone.  It is held in the fields of the
  one \<^verbatim>\<open>Downloader\<close>.  Two downloads are started, \<^verbatim>\<open>javascript\<close> then \<^verbatim>\<open>cobol\<close>;
  after the two first parts the fields hold the slug and the directory of
  \<^verbatim>\<open>cobol\<close>.  The response for \<^verbatim>\<open>cobol\<close> arrives first, then the one for
  \<^verbatim>\<open>javascript\<close>: nothing at all is written below \<^verbatim>\<open>/store/javascript\<close>, and the
  directory of \<^verbatim>\<open>cobol\<close> ends up with the meta file and the item list of
  \<^verbatim>\<open>javascript\<close>.  Run alone, the download of \<^verbatim>\<open>javascript\<close> writes both files into
  its own directory.
\<close>

theorem C9_downloads_share_their_state:
  "fst (download plain_env rev [''javascript'', ''cobol''] True (new_downloader ''/store'')) = Inr ()
   \<and> map (files (snd (download plain_env rev [''javascript'', ''cobol''] True
                        (new_downloader ''/store''))))
        [''/store/javascript/meta.json'', ''/store/javascript/items.json'',
         ''/store/cobol/meta.json'', ''/store/cobol/items.json'']
       = [None, None, Some ''JavaScript,javascript,mdn'',
          Some ''Array@js/array.html;~at~@js/array.html.html;~gone~@js/gone.html;'']
   \<and> map (files (snd (download plain_env (\<lambda>r. r) [''javascript''] True (new_downloader ''/store''))))
        [''/store/javascript/meta.json'', ''/store/javascript/items.json'']
       = [Some ''JavaScript,javascript,mdn'',
          Some ''Array@js/array.html;~at~@js/array.html.html;~gone~@js/gone.html;'']"
  by code_simp

end
